theory Spec2Isabelle
  imports Main "HOL-Library.Sublist"
begin

section \<open>mcuxeq: the serial command/response session, embedded from \<^verbatim>\<open>mcuxeq.c\<close>\<close>

text \<open>
  The program talks to the outside world through system calls. The embedding makes the
  answers of the outside world part of an explicit state: the clock is a sequence of
  readings (one per \<^verbatim>\<open>gettimeofday\<close>), the serial device is a script of arrival events,
  the open attempts are a sequence of outcomes. Every \<^verbatim>\<open>exit(-1)\<close> after a \<^verbatim>\<open>pr_err\<close>
  is the value \<open>Fatal d\<close>, where \<open>d\<close> names the diagnostic; a system call that never returns is
  \<open>Blocked\<close>.

  Bytes are \<^typ>\<open>char\<close>; a C string held in a buffer is the part of the buffer before its
  first NUL byte (\<open>cstr\<close>). Integers of type \<^verbatim>\<open>int\<close> are 32 bits wide (\<open>int32\<close> is the
  conversion to that type), \<^verbatim>\<open>long\<close>, \<^verbatim>\<open>time_t\<close> and \<^verbatim>\<open>suseconds_t\<close> are 64 bits wide
  (LP64 Linux) and are modelled by \<^typ>\<open>int\<close>: the sums computed on them stay far inside
  that range.
\<close>

subsection \<open>Bytes and C strings\<close>

definition CR :: char where "CR = CHR 0x0D"
definition LF :: char where "LF = CHR 0x0A"
definition NUL :: char where "NUL = CHR 0x00"
definition SPC :: char where "SPC = CHR 0x20"

definition BUF_SIZE :: nat where "BUF_SIZE = 64"
definition LINE_SIZE :: nat where "LINE_SIZE = 1024"
definition RETRY_MS :: nat where "RETRY_MS = 200"
definition DEFAULT_TIMEOUT_MS :: int where "DEFAULT_TIMEOUT_MS = 2000"

text \<open>What \<^verbatim>\<open>strlen\<close>, \<^verbatim>\<open>strstr\<close>, \<^verbatim>\<open>regexec\<close> and \<^verbatim>\<open>printf("%s")\<close> see of a buffer.\<close>

definition cstr :: "string \<Rightarrow> string" where
  "cstr b = takeWhile (\<lambda>c. c \<noteq> NUL) b"

text \<open>\<^verbatim>\<open>strstr(hay, needle) != NULL\<close> on two C strings.\<close>

fun occurs_in :: "string \<Rightarrow> string \<Rightarrow> bool" where
  "occurs_in needle [] = (needle = [])"
| "occurs_in needle (h # hs) = (prefix needle (h # hs) \<or> occurs_in needle hs)"

definition strstr :: "string \<Rightarrow> string \<Rightarrow> bool" where
  "strstr hay needle = occurs_in (cstr needle) (cstr hay)"

subsection \<open>C integer arithmetic\<close>

text \<open>Conversion to a 32-bit \<^verbatim>\<open>int\<close> (two's complement, modulo \<open>2^32\<close>).\<close>

definition int32 :: "int \<Rightarrow> int" where
  "int32 x = (x + 2147483648) mod 4294967296 - 2147483648"

text \<open>\<^verbatim>\<open>div(numer, denom)\<close> of \<^verbatim>\<open>stdlib.h\<close>: quotient truncated towards zero, and the remainder.\<close>

definition div_quot :: "int \<Rightarrow> int \<Rightarrow> int" where
  "div_quot a b = sgn a * sgn b * (\<bar>a\<bar> div \<bar>b\<bar>)"

definition div_rem :: "int \<Rightarrow> int \<Rightarrow> int" where
  "div_rem a b = a - b * div_quot a b"

subsection \<open>Configuration, diagnostics and the state of the run\<close>

record timeval =
  tv_sec :: int
  tv_usec :: int

text \<open>
  The options of the program. \<open>regex_prompt\<close> is the compiled prompt pattern, as the set of
  C strings on which \<^verbatim>\<open>regexec\<close> reports a match.
\<close>

record config =
  opt_dev :: "string option"
  opt_timeout :: int
  opt_debug :: int
  opt_force :: bool
  regex_prompt :: "string \<Rightarrow> bool"

datatype errno = EBUSY | EAGAIN | EOTHER

datatype diag =
    Failed_to_get_time
  | Failed_to_open errno
  | Failed_exclusive_mode
  | Failed_get_attributes
  | Failed_raw_mode
  | Failed_to_flush
  | Poll_error
  | Timeout
  | No_data
  | Read_error
  | Line_too_long
  | Failed_to_allocate
  | Write_error
  | Short_write
  | Command_echo_not_found
  | Response_too_long

text \<open>
  How a function stops the run: \<open>Fatal d\<close> is \<^verbatim>\<open>pr_err\<close> of the diagnostic \<open>d\<close> and
  \<^verbatim>\<open>exit(-1)\<close>, \<open>Usage\<close> is \<^verbatim>\<open>usage()\<close> with its \<^verbatim>\<open>exit(1)\<close>, \<open>Blocked\<close> is a system call
  that never returns.
\<close>

datatype stop = Fatal diag | Usage | Blocked

text \<open>The lines of \<^verbatim>\<open>pr_debug\<close>, which go to standard output like the response itself.\<close>

datatype trace =
    T_opening
  | T_retrying errno
  | T_poll int
  | T_read int
  | T_hexdump string
  | T_prompt_seen
  | T_sending
  | T_waiting_echo
  | T_ignoring string
  | T_echo_found

datatype out = Printed string | Debug trace

datatype syscall =
    Sys_capdrop
  | Sys_open
  | Sys_flock
  | Sys_usleep nat
  | Sys_write string
  | Sys_close

text \<open>
  One event of the device script: \<open>Data d bs\<close> says that \<open>d\<close> milliseconds after the next
  \<^verbatim>\<open>poll\<close> starts the descriptor becomes readable and holds the bytes \<open>bs\<close> (end of file
  when \<open>bs\<close> is empty); \<open>Read_fails d\<close> that it becomes readable and \<^verbatim>\<open>read\<close> fails;
  \<open>Poll_fails\<close> that \<^verbatim>\<open>poll\<close> itself fails. After the last event the device stays silent.
\<close>

datatype dev_event = Data nat string | Read_fails nat | Poll_fails

text \<open>One attempt of the open loop: the result of \<^verbatim>\<open>open\<close>, and of \<^verbatim>\<open>flock\<close> if it is called.\<close>

datatype lock_result = Lock_ok | Lock_fail errno
datatype attempt = Open_fail errno | Open_ok nat lock_result

text \<open>
  The state of the run. \<open>buf\<close>, \<open>pos\<close> and \<open>n\<close> are the static variables of \<^verbatim>\<open>ser_getc\<close>;
  \<open>dev\<close> is the device script still to come; \<open>clock\<close> gives the successive results of
  \<^verbatim>\<open>gettimeofday\<close> (\<open>None\<close> when it fails) and \<open>ticks\<close> counts the calls made; \<open>opens\<close> gives
  the outcomes of the successive open attempts and \<open>tries\<close> counts them; the flags say
  whether \<^verbatim>\<open>ioctl(TIOCEXCL)\<close>, \<^verbatim>\<open>tcgetattr\<close>, \<^verbatim>\<open>tcsetattr\<close>, \<^verbatim>\<open>tcflush\<close> and \<^verbatim>\<open>malloc\<close>
  succeed; \<open>write_result len\<close> is what \<^verbatim>\<open>write\<close> returns when asked for \<open>len\<close> bytes;
  \<open>stdout\<close> is what has been printed and \<open>calls\<close> the system calls made, in order.
\<close>

record state =
  buf :: string
  pos :: nat
  n :: int
  dev :: "dev_event list"
  clock :: "nat \<Rightarrow> timeval option"
  ticks :: nat
  opens :: "nat \<Rightarrow> attempt"
  tries :: nat
  excl_ok :: bool
  getattr_ok :: bool
  setattr_ok :: bool
  flush_ok :: bool
  malloc_ok :: bool
  write_result :: "nat \<Rightarrow> int"
  stdout :: "out list"
  calls :: "syscall list"

type_synonym 'a result = "(stop + 'a) \<times> state"

definition pr_debug :: "config \<Rightarrow> trace \<Rightarrow> state \<Rightarrow> state" where
  "pr_debug cfg t s = (if opt_debug cfg \<noteq> 0 then s\<lparr>stdout := stdout s @ [Debug t]\<rparr> else s)"

definition sys :: "syscall \<Rightarrow> state \<Rightarrow> state" where
  "sys c s = s\<lparr>calls := calls s @ [c]\<rparr>"

subsection \<open>The timeout clock\<close>

definition get_time :: "state \<Rightarrow> timeval result" where
  "get_time s =
     (case clock s (ticks s) of
        None \<Rightarrow> (Inl (Fatal Failed_to_get_time), s\<lparr>ticks := Suc (ticks s)\<rparr>)
      | Some now \<Rightarrow> (Inr now, s\<lparr>ticks := Suc (ticks s)\<rparr>))"

text \<open>
  The arithmetic of \<^verbatim>\<open>timeout_init\<close> on the reading \<open>now\<close>. The product
  \<^verbatim>\<open>opt_timeout * 1000\<close> is computed in \<^verbatim>\<open>int\<close>, the sum in \<^verbatim>\<open>long\<close>, and \<^verbatim>\<open>div\<close>
  takes its arguments as \<^verbatim>\<open>int\<close>, so that the sum is converted to \<^verbatim>\<open>int\<close> on the call.
  An overflow of the product is undefined in C; it is modelled as the wrap-around that
  the usual compilers produce, and nothing proved below relies on a budget that large.
\<close>

definition deadline_after :: "int \<Rightarrow> timeval \<Rightarrow> timeval" where
  "deadline_after budget now =
     (let usec = tv_usec now + int32 (budget * 1000) in
      if usec \<ge> 1000000
      then \<lparr>tv_sec = tv_sec now + div_quot (int32 usec) 1000000,
            tv_usec = div_rem (int32 usec) 1000000\<rparr>
      else \<lparr>tv_sec = tv_sec now, tv_usec = usec\<rparr>)"

text \<open>\<open>tv\<close> is the caller's variable: it is left as it is when the timeout is disabled.\<close>

definition timeout_init :: "config \<Rightarrow> timeval \<Rightarrow> state \<Rightarrow> timeval result" where
  "timeout_init cfg tv s =
     (if opt_timeout cfg \<le> 0 then (Inr tv, s)
      else case get_time s of
             (Inl e, s') \<Rightarrow> (Inl e, s')
           | (Inr now, s') \<Rightarrow> (Inr (deadline_after (opt_timeout cfg) now), s'))"

definition later :: "timeval \<Rightarrow> timeval \<Rightarrow> bool" where
  "later now tv \<longleftrightarrow>
     tv_sec now > tv_sec tv \<or> (tv_sec now = tv_sec tv \<and> tv_usec now > tv_usec tv)"

definition timed_out :: "config \<Rightarrow> timeval \<Rightarrow> state \<Rightarrow> bool result" where
  "timed_out cfg tv s =
     (if opt_timeout cfg \<le> 0 then (Inr False, s)
      else case get_time s of
             (Inl e, s') \<Rightarrow> (Inl e, s')
           | (Inr now, s') \<Rightarrow> (Inr (later now tv), s'))"

subsection \<open>The timed byte reader\<close>

text \<open>
  \<^verbatim>\<open>poll(&pfd, 1, timeout)\<close> on the device script: a negative timeout waits without
  limit (\<open>None\<close> when nothing ever arrives), a timeout of zero returns at once, a positive
  one waits for that many milliseconds. The result is the return value of \<^verbatim>\<open>poll\<close>.
\<close>

fun poll_dev :: "int \<Rightarrow> dev_event list \<Rightarrow> int option" where
  "poll_dev t [] = (if t < 0 then None else Some 0)"
| "poll_dev t (Poll_fails # es) = Some (- 1)"
| "poll_dev t (Data d bs # es) = (if t < 0 \<or> int d \<le> t then Some 1 else Some 0)"
| "poll_dev t (Read_fails d # es) = (if t < 0 \<or> int d \<le> t then Some 1 else Some 0)"

text \<open>
  \<^verbatim>\<open>read(fd, buf, k)\<close> on a readable descriptor: the return value, the bytes stored, and
  the script that is left; bytes beyond \<open>k\<close> stay queued and are readable at once.
\<close>

fun read_dev :: "nat \<Rightarrow> dev_event list \<Rightarrow> (int \<times> string) \<times> dev_event list" where
  "read_dev k (Data d bs # es) =
     ((int (length (take k bs)), take k bs),
      if drop k bs = [] then es else Data 0 (drop k bs) # es)"
| "read_dev k (Read_fails d # es) = ((- 1, []), es)"
| "read_dev k es = ((- 1, []), es)"

definition ser_getc :: "config \<Rightarrow> state \<Rightarrow> char result" where
  "ser_getc cfg s =
     (if int (pos s) \<ge> n s then
        (case poll_dev (opt_timeout cfg) (dev s) of
           None \<Rightarrow> (Inl Blocked, s)
         | Some res \<Rightarrow>
             let s1 = pr_debug cfg (T_poll res) s in
             if res < 0 then (Inl (Fatal Poll_error), s1)
             else if res = 0 then (Inl (Fatal Timeout), s1)
             else
               (case read_dev BUF_SIZE (dev s1) of
                  ((k, bs), es) \<Rightarrow>
                    let s2 = s1\<lparr>buf := bs @ drop (length bs) (buf s1), n := k, dev := es\<rparr> in
                    if k = 0 then (Inl (Fatal No_data), s2)
                    else if k < 0 then (Inl (Fatal Read_error), s2)
                    else
                      let s3 = pr_debug cfg (T_read k) (s2\<lparr>pos := 0\<rparr>);
                          s4 = (if opt_debug cfg > 1
                                then s3\<lparr>stdout := stdout s3 @
                                        [Debug (T_hexdump (take (nat k) (buf s3)))]\<rparr>
                                else s3)
                      in (Inr (buf s4 ! pos s4), s4\<lparr>pos := Suc (pos s4)\<rparr>)))
      else (Inr (buf s ! pos s), s\<lparr>pos := Suc (pos s)\<rparr>))"

text \<open>What is left to read: the bytes in the buffer and the events of the script.\<close>

fun event_size :: "dev_event \<Rightarrow> nat" where
  "event_size (Data d bs) = Suc (length bs)"
| "event_size (Read_fails d) = 1"
| "event_size Poll_fails = 1"

definition unread :: "state \<Rightarrow> nat" where
  "unread s = (nat (n s) - pos s) + sum_list (map event_size (dev s))"

lemma read_dev_size:
  "read_dev k es = ((m, bs), es') \<Longrightarrow> 0 < m \<Longrightarrow>
   nat m + sum_list (map event_size es') \<le> sum_list (map event_size es)"
  by (induction k es rule: read_dev.induct) (auto split: if_splits)

lemma ser_getc_unread:
  "ser_getc cfg s = (Inr c, s') \<Longrightarrow> unread s' < unread s"
  unfolding ser_getc_def unread_def pr_debug_def Let_def
  by (auto split: option.splits if_splits prod.splits dest!: read_dev_size)

subsection \<open>The line assembler\<close>

text \<open>The inner loop of \<^verbatim>\<open>ser_readline\<close>: the next byte that is not a carriage return.\<close>

function getc_skip_cr :: "config \<Rightarrow> state \<Rightarrow> char result" where
  "getc_skip_cr cfg s =
     (case ser_getc cfg s of
        (Inl e, s') \<Rightarrow> (Inl e, s')
      | (Inr c, s') \<Rightarrow> if c = CR then getc_skip_cr cfg s' else (Inr c, s'))"
  by pat_completeness auto
termination
  by (relation "measure (\<lambda>(cfg, s). unread s)") (auto simp: ser_getc_unread [OF sym])

declare getc_skip_cr.simps [simp del]

lemma getc_skip_cr_unread:
  "getc_skip_cr cfg s = (Inr c, s') \<Longrightarrow> unread s' < unread s"
proof (induction cfg s rule: getc_skip_cr.induct)
  case (1 cfg s)
  obtain r s1 where g: "ser_getc cfg s = (r, s1)"
    by (cases "ser_getc cfg s")
  show ?case
  proof (cases r)
    case (Inl e)
    with g "1.prems" show ?thesis
      by (simp add: getc_skip_cr.simps [of cfg s])
  next
    case (Inr d)
    have less: "unread s1 < unread s"
      using g Inr by (simp add: ser_getc_unread)
    show ?thesis
    proof (cases "d = CR")
      case True
      with g Inr "1.prems" have "getc_skip_cr cfg s1 = (Inr c, s')"
        by (simp add: getc_skip_cr.simps [of cfg s])
      with "1.IH" g Inr True have "unread s' < unread s1"
        by simp
      with less show ?thesis by simp
    next
      case False
      with g Inr "1.prems" less show ?thesis
        by (simp add: getc_skip_cr.simps [of cfg s])
    qed
  qed
qed

text \<open>
  The outer loop of \<^verbatim>\<open>ser_readline\<close>. \<open>line\<close> holds the bytes stored so far (\<^verbatim>\<open>n\<close> is its
  length); \<open>None\<close> is the \<^verbatim>\<open>NULL\<close> returned when the prompt is seen.
\<close>

function readline_loop :: "config \<Rightarrow> string \<Rightarrow> state \<Rightarrow> string option result" where
  "readline_loop cfg line s =
     (case getc_skip_cr cfg s of
        (Inl e, s') \<Rightarrow> (Inl e, s')
      | (Inr c, s') \<Rightarrow>
          if length line \<ge> LINE_SIZE - 1 then (Inl (Fatal Line_too_long), s')
          else
            let line' = line @ [c] in
            if regex_prompt cfg (cstr line') then (Inr None, pr_debug cfg T_prompt_seen s')
            else if c \<noteq> LF then readline_loop cfg line' s'
            else (Inr (Some line'), s'))"
  by pat_completeness auto
termination
  by (relation "measure (\<lambda>(cfg, line, s). unread s)")
    (auto simp: getc_skip_cr_unread [OF sym])

declare readline_loop.simps [simp del]

definition ser_readline :: "config \<Rightarrow> state \<Rightarrow> string option result" where
  "ser_readline cfg s = readline_loop cfg [] s"

lemma readline_loop_unread:
  "readline_loop cfg line s = (Inr r, s') \<Longrightarrow> unread s' < unread s"
proof (induction cfg line s rule: readline_loop.induct)
  case (1 cfg line s)
  obtain x s1 where g: "getc_skip_cr cfg s = (x, s1)"
    by (cases "getc_skip_cr cfg s")
  show ?case
  proof (cases x)
    case (Inl e)
    with g "1.prems" show ?thesis
      by (simp add: readline_loop.simps [of cfg line s])
  next
    case (Inr c)
    have less: "unread s1 < unread s"
      using g Inr by (simp add: getc_skip_cr_unread)
    have pd: "unread (pr_debug cfg T_prompt_seen s1) = unread s1"
      by (simp add: pr_debug_def unread_def)
    show ?thesis
    proof (cases "length line \<ge> LINE_SIZE - 1 \<or> regex_prompt cfg (cstr (line @ [c])) \<or> c = LF")
      case True
      with g Inr "1.prems" less pd show ?thesis
        by (auto simp add: readline_loop.simps [of cfg line s] Let_def split: if_splits)
    next
      case False
      with g Inr "1.prems" have "readline_loop cfg (line @ [c]) s1 = (Inr r, s')"
        by (simp add: readline_loop.simps [of cfg line s] Let_def)
      with "1.IH" [OF g [symmetric] Inr _ refl] False have "unread s' < unread s1"
        by simp
      with less show ?thesis by simp
    qed
  qed
qed

lemma ser_readline_unread:
  "ser_readline cfg s = (Inr r, s') \<Longrightarrow> unread s' < unread s"
  by (simp add: ser_readline_def readline_loop_unread)

lemma timed_out_unread:
  "timed_out cfg tv s = (r, s') \<Longrightarrow> unread s' = unread s"
  by (auto simp: timed_out_def get_time_def unread_def split: if_splits option.splits)

subsection \<open>Device acquisition\<close>

text \<open>
  One pass through \<^verbatim>\<open>open\<close> and, unless forced, \<^verbatim>\<open>flock\<close>: the descriptor, or the
  \<^verbatim>\<open>errno\<close> left by the call that failed.
\<close>

definition try_open :: "config \<Rightarrow> state \<Rightarrow> (errno + nat) \<times> state" where
  "try_open cfg s =
     (let s1 = sys Sys_open (s\<lparr>tries := Suc (tries s)\<rparr>) in
      case opens s (tries s) of
        Open_fail e \<Rightarrow> (Inl e, s1)
      | Open_ok fd lk \<Rightarrow>
          if opt_force cfg then (Inr fd, s1)
          else (case lk of
                  Lock_ok \<Rightarrow> (Inr fd, sys Sys_flock s1)
                | Lock_fail e \<Rightarrow> (Inl e, sys Sys_flock s1)))"

text \<open>The \<^verbatim>\<open>while (1)\<close> of \<^verbatim>\<open>ser_open\<close>; \<open>None\<close> when it retries for ever.\<close>

partial_function (option) open_loop :: "config \<Rightarrow> timeval \<Rightarrow> state \<Rightarrow> nat result option" where
  "open_loop cfg tv s =
     (case try_open cfg s of
        (Inr fd, s1) \<Rightarrow> Some (Inr fd, s1)
      | (Inl e, s1) \<Rightarrow>
          if e \<noteq> EBUSY \<and> e \<noteq> EAGAIN then Some (Inl (Fatal (Failed_to_open e)), s1)
          else
            (case timed_out cfg tv s1 of
               (Inl x, s2) \<Rightarrow> Some (Inl x, s2)
             | (Inr expired, s2) \<Rightarrow>
                 if expired then Some (Inl (Fatal (Failed_to_open e)), s2)
                 else open_loop cfg tv
                        (sys (Sys_usleep (RETRY_MS * 1000)) (pr_debug cfg (T_retrying e) s2))))"


text \<open>
  The steps of \<^verbatim>\<open>ser_open\<close> after its loop, on the descriptor \<open>fd\<close>: exclusive mode, raw
  mode, flush.
\<close>

definition set_raw :: "nat \<Rightarrow> state \<Rightarrow> nat result" where
  "set_raw fd s =
     (if \<not> excl_ok s then (Inl (Fatal Failed_exclusive_mode), s)
      else if \<not> getattr_ok s then (Inl (Fatal Failed_get_attributes), s)
      else if \<not> setattr_ok s then (Inl (Fatal Failed_raw_mode), s)
      else if \<not> flush_ok s then (Inl (Fatal Failed_to_flush), s)
      else (Inr fd, s))"

text \<open>\<open>tv0\<close> is the indeterminate initial content of the local variable \<^verbatim>\<open>tv\<close>.\<close>

definition ser_open :: "config \<Rightarrow> timeval \<Rightarrow> state \<Rightarrow> nat result option" where
  "ser_open cfg tv0 s =
     (let s1 = (if \<not> opt_force cfg then sys Sys_capdrop s else s);
          s2 = pr_debug cfg T_opening s1
      in case timeout_init cfg tv0 s2 of
           (Inl e, s3) \<Rightarrow> Some (Inl e, s3)
         | (Inr tv, s3) \<Rightarrow>
             (case open_loop cfg tv s3 of
                None \<Rightarrow> None
              | Some (Inl e, s4) \<Rightarrow> Some (Inl e, s4)
              | Some (Inr fd, s4) \<Rightarrow> Some (set_raw fd s4)))"

subsection \<open>The session\<close>

text \<open>
  The second loop of \<^verbatim>\<open>join_words\<close> from index \<open>i\<close> on; \<open>joined\<close> is the C string it
  leaves in \<^verbatim>\<open>line\<close>, and \<open>join_words\<close> returns it with \<^verbatim>\<open>*len_out\<close>.
\<close>

fun join_from :: "nat \<Rightarrow> string list \<Rightarrow> string" where
  "join_from i [] = []"
| "join_from i (w # ws) = (if i \<noteq> 0 then [SPC] else []) @ cstr w @ join_from (Suc i) ws"

definition joined :: "string list \<Rightarrow> string" where
  "joined words = join_from 0 words @ [LF]"

definition join_words :: "string list \<Rightarrow> state \<Rightarrow> (string \<times> nat) result" where
  "join_words words s =
     (let len = sum_list (map (\<lambda>w. length (cstr w) + 1) words) in
      if \<not> malloc_ok s then (Inl (Fatal Failed_to_allocate), s)
      else (Inr (joined words, len), s))"

text \<open>The echo-wait loop of \<^verbatim>\<open>main\<close>.\<close>

function wait_echo :: "config \<Rightarrow> string \<Rightarrow> timeval \<Rightarrow> state \<Rightarrow> unit result" where
  "wait_echo cfg cmd tv s =
     (case ser_readline cfg s of
        (Inl e, s1) \<Rightarrow> (Inl e, s1)
      | (Inr None, s1) \<Rightarrow> (Inl (Fatal Command_echo_not_found), s1)
      | (Inr (Some line), s1) \<Rightarrow>
          if strstr line cmd then (Inr (), s1)
          else
            (case timed_out cfg tv s1 of
               (Inl e, s2) \<Rightarrow> (Inl e, s2)
             | (Inr expired, s2) \<Rightarrow>
                 if expired then (Inl (Fatal Command_echo_not_found), s2)
                 else wait_echo cfg cmd tv (pr_debug cfg (T_ignoring (cstr line)) s2)))"
  by pat_completeness auto
termination
  by (relation "measure (\<lambda>(cfg, cmd, tv, s). unread s)")
    (auto simp: pr_debug_def unread_def dest!: ser_readline_unread [OF sym] timed_out_unread [OF sym])


declare wait_echo.simps [simp del]

text \<open>The response loop of \<^verbatim>\<open>main\<close>.\<close>

function collect_response :: "config \<Rightarrow> timeval \<Rightarrow> state \<Rightarrow> unit result" where
  "collect_response cfg tv s =
     (case ser_readline cfg s of
        (Inl e, s1) \<Rightarrow> (Inl e, s1)
      | (Inr None, s1) \<Rightarrow> (Inr (), s1)
      | (Inr (Some line), s1) \<Rightarrow>
          (case timed_out cfg tv s1 of
             (Inl e, s2) \<Rightarrow> (Inl e, s2)
           | (Inr expired, s2) \<Rightarrow>
               if expired then (Inl (Fatal Response_too_long), s2)
               else collect_response cfg tv (s2\<lparr>stdout := stdout s2 @ [Printed (cstr line)]\<rparr>)))"
  by pat_completeness auto
termination
  by (relation "measure (\<lambda>(cfg, tv, s). unread s)")
    (auto simp: unread_def dest!: ser_readline_unread [OF sym] timed_out_unread [OF sym])

declare collect_response.simps [simp del]

text \<open>
  \<^verbatim>\<open>main\<close> from the check of its arguments on, with the options parsed and the prompt
  pattern compiled into \<open>cfg\<close>. \<open>None\<close> is a run that retries the open for ever.
\<close>

definition main :: "config \<Rightarrow> string list \<Rightarrow> timeval \<Rightarrow> state \<Rightarrow> unit result option" where
  "main cfg words tv0 s =
     (if opt_dev cfg = None \<or> words = [] then Some (Inl Usage, s)
      else
        case join_words words s of
          (Inl e, s0) \<Rightarrow> Some (Inl e, s0)
        | (Inr (cmd, len), s0) \<Rightarrow>
            (case ser_open cfg tv0 s0 of
               None \<Rightarrow> None
             | Some (Inl e, s1) \<Rightarrow> Some (Inl e, s1)
             | Some (Inr fd, s1) \<Rightarrow>
                 let s2 = sys (Sys_write (take len cmd)) (pr_debug cfg T_sending s1);
                     out = write_result s2 len
                 in
                   if out < 0 then Some (Inl (Fatal Write_error), s2)
                   else if out < int len then Some (Inl (Fatal Short_write), s2)
                   else
                     (case timeout_init cfg tv0 (pr_debug cfg T_waiting_echo s2) of
                        (Inl e, s3) \<Rightarrow> Some (Inl e, s3)
                      | (Inr tv, s3) \<Rightarrow>
                          (case wait_echo cfg cmd tv s3 of
                             (Inl e, s4) \<Rightarrow> Some (Inl e, s4)
                           | (Inr u, s4) \<Rightarrow>
                               (case timeout_init cfg tv (pr_debug cfg T_echo_found s4) of
                                  (Inl e, s5) \<Rightarrow> Some (Inl e, s5)
                                | (Inr tv', s5) \<Rightarrow>
                                    (case collect_response cfg tv' s5 of
                                       (Inl e, s6) \<Rightarrow> Some (Inl e, s6)
                                     | (Inr u', s6) \<Rightarrow> Some (Inr (), sys Sys_close s6)))))))"

text \<open>The exit status of a run that ends; a blocked run has none.\<close>

fun exit_status :: "stop + unit \<Rightarrow> int option" where
  "exit_status (Inr u) = Some 0"
| "exit_status (Inl (Fatal d)) = Some (- 1)"
| "exit_status (Inl Usage) = Some 1"
| "exit_status (Inl Blocked) = None"

subsection \<open>The default prompt pattern\<close>

text \<open>
  The C strings matched by \<^verbatim>\<open>DEFAULT_PROMPT\<close>, \<^verbatim>\<open>"^[[:alnum:]]*[#$>] $"\<close>, as \<^verbatim>\<open>regcomp\<close>
  compiles it with \<^verbatim>\<open>REG_NOSUB\<close> alone in the C locale: letters and digits, then one of
  \<^verbatim>\<open>#\<close>, \<^verbatim>\<open>$\<close>, \<^verbatim>\<open>>\<close>, then a space, from the start of the string to its end.
\<close>

definition is_alnum :: "char \<Rightarrow> bool" where
  "is_alnum c \<longleftrightarrow>
     (let k = (of_char c :: nat)
      in (48 \<le> k \<and> k \<le> 57) \<or> (65 \<le> k \<and> k \<le> 90) \<or> (97 \<le> k \<and> k \<le> 122))"

definition default_prompt :: "string \<Rightarrow> bool" where
  "default_prompt str \<longleftrightarrow>
     (case rev str of
        sp # m # a \<Rightarrow>
          sp = SPC \<and> (m = CHR ''#'' \<or> m = CHR ''$'' \<or> m = CHR ''>'') \<and> list_all is_alnum a
      | _ \<Rightarrow> False)"

text \<open>The characters \<^verbatim>\<open>#\<close>, \<^verbatim>\<open>$\<close> and \<^verbatim>\<open>>\<close> that end the default prompt before its space.\<close>

definition is_marker :: "char \<Rightarrow> bool" where
  "is_marker m \<longleftrightarrow> m = CHR ''#'' \<or> m = CHR ''$'' \<or> m = CHR ''>''"

subsection \<open>Notions used in the statements\<close>

text \<open>A byte sequence without its carriage returns.\<close>

definition strip_cr :: "string \<Rightarrow> string" where
  "strip_cr bs = filter (\<lambda>c. c \<noteq> CR) bs"

text \<open>The invariant of the static variables of \<^verbatim>\<open>ser_getc\<close>.\<close>

definition reader_ok :: "state \<Rightarrow> bool" where
  "reader_ok s \<longleftrightarrow> length (buf s) = BUF_SIZE \<and> n s \<le> int BUF_SIZE"

text \<open>
  The bytes that the next calls of \<^verbatim>\<open>ser_getc\<close> will deliver under the timeout \<open>t\<close> before one of
  them fails: first what is left in the buffer, then the data of the script up to the first
  event that arrives too late, is an end of file, or is a failure.
\<close>

fun incoming :: "int \<Rightarrow> dev_event list \<Rightarrow> string" where
  "incoming t [] = []"
| "incoming t (Data d bs # es) =
     (if (t < 0 \<or> int d \<le> t) \<and> bs \<noteq> [] then bs @ incoming t es else [])"
| "incoming t (e # es) = []"

definition stream :: "config \<Rightarrow> state \<Rightarrow> string" where
  "stream cfg s = drop (pos s) (take (nat (n s)) (buf s)) @ incoming (opt_timeout cfg) (dev s)"

text \<open>The response lines among the items written to standard output.\<close>

fun printed :: "out list \<Rightarrow> string list" where
  "printed [] = []"
| "printed (Printed x # os) = x # printed os"
| "printed (Debug t # os) = printed os"

text \<open>
  \<open>touched cfg s s'\<close>: reading has changed nothing but the reader's variables, the device
  script and the debugging lines on standard output.
\<close>

definition touched :: "config \<Rightarrow> state \<Rightarrow> state \<Rightarrow> bool" where
  "touched cfg s s' \<longleftrightarrow>
     s'\<lparr>buf := buf s, pos := pos s, n := n s, dev := dev s, stdout := stdout s\<rparr> = s
     \<and> printed (stdout s') = printed (stdout s)
     \<and> (opt_debug cfg = 0 \<longrightarrow> stdout s' = stdout s)"

text \<open>The ways in which \<^verbatim>\<open>ser_getc\<close> stops the run.\<close>

definition starved :: "stop \<Rightarrow> bool" where
  "starved e \<longleftrightarrow>
     e = Blocked \<or> e = Fatal Poll_error \<or> e = Fatal Timeout \<or> e = Fatal No_data
       \<or> e = Fatal Read_error"

text \<open>
  The line assembler on a plain byte sequence, byte by byte: what \<^verbatim>\<open>ser_readline\<close> decides
  when the reader delivers \<open>S\<close>, and the bytes it leaves unread.
\<close>

datatype verdict = V_line string string | V_prompt string | V_too_long | V_starved

fun assemble :: "(string \<Rightarrow> bool) \<Rightarrow> string \<Rightarrow> string \<Rightarrow> verdict" where
  "assemble rx line [] = V_starved"
| "assemble rx line (c # cs) =
     (if c = CR then assemble rx line cs
      else if length line \<ge> LINE_SIZE - 1 then V_too_long
      else if rx (cstr (line @ [c])) then V_prompt cs
      else if c = LF then V_line (line @ [c]) cs
      else assemble rx (line @ [c]) cs)"

fun yields :: "config \<Rightarrow> state \<Rightarrow> string option result \<Rightarrow> verdict \<Rightarrow> bool" where
  "yields cfg s (r, s') (V_line l rest) \<longleftrightarrow>
     r = Inr (Some l) \<and> reader_ok s' \<and> stream cfg s' = rest \<and> touched cfg s s'"
| "yields cfg s (r, s') (V_prompt rest) \<longleftrightarrow>
     r = Inr None \<and> reader_ok s' \<and> stream cfg s' = rest \<and> touched cfg s s'"
| "yields cfg s (r, s') V_too_long \<longleftrightarrow>
     r = Inl (Fatal Line_too_long) \<and> touched cfg s s'"
| "yields cfg s (r, s') V_starved \<longleftrightarrow>
     (\<exists>e. r = Inl e \<and> starved e) \<and> touched cfg s s'"

text \<open>What the caller of \<^verbatim>\<open>ser_readline\<close> observes of a verdict, if the reader does not fail.\<close>

fun decision :: "verdict \<Rightarrow> (stop + string option) option" where
  "decision (V_line l rest) = Some (Inr (Some l))"
| "decision (V_prompt rest) = Some (Inr None)"
| "decision V_too_long = Some (Inl (Fatal Line_too_long))"
| "decision V_starved = None"

text \<open>
  \<open>hit rx line S k\<close>: byte \<open>k\<close> of \<open>S\<close> is stored, and \<^verbatim>\<open>regexec\<close> accepts the buffer as it
  stands once the byte is stored: \<open>line\<close>, then \<open>S\<close> up to \<open>k\<close> without its carriage returns,
  read as a C string, that is, up to its first NUL byte.
\<close>

definition hit :: "(string \<Rightarrow> bool) \<Rightarrow> string \<Rightarrow> string \<Rightarrow> nat \<Rightarrow> bool" where
  "hit rx line S k \<longleftrightarrow> S ! k \<noteq> CR \<and> rx (cstr (line @ strip_cr (take (Suc k) S)))"

text \<open>
  \<open>first_match cfg S k\<close>: \<open>k\<close> is the first position of \<open>S\<close> at which the bytes stored so far,
  \<open>S\<close> up to \<open>k\<close> without its carriage returns, match the prompt pattern when they are
  read as a C string (\<open>hit\<close>).
  \<open>within_line S k\<close>: no newline comes before position \<open>k\<close>, and the bytes stored up to
  \<open>k\<close> fit in the line buffer with its terminator.
\<close>

definition first_match :: "config \<Rightarrow> string \<Rightarrow> nat \<Rightarrow> bool" where
  "first_match cfg S k \<longleftrightarrow>
     k < length S \<and> hit (regex_prompt cfg) [] S k \<and> (\<forall>j<k. \<not> hit (regex_prompt cfg) [] S j)"

definition within_line :: "string \<Rightarrow> nat \<Rightarrow> bool" where
  "within_line S k \<longleftrightarrow>
     LF \<notin> set (take k S) \<and> length (strip_cr (take (Suc k) S)) < LINE_SIZE"

text \<open>
  The prompt test on the bytes themselves, for comparison with \<open>first_match\<close>:
  \<open>raw_match_at rx line S\<close> is the first position of \<open>S\<close> whose byte is stored and at which
  \<open>line\<close> followed by \<open>S\<close> up to that position, without its carriage returns and with its
  NUL bytes kept, satisfies \<open>rx\<close>; \<open>None\<close> when there is none.
\<close>

fun raw_match_at :: "(string \<Rightarrow> bool) \<Rightarrow> string \<Rightarrow> string \<Rightarrow> nat option" where
  "raw_match_at rx line [] = None"
| "raw_match_at rx line (c # cs) =
     (if c \<noteq> CR \<and> rx (line @ [c]) then Some 0
      else map_option Suc (raw_match_at rx (if c = CR then line else line @ [c]) cs))"

text \<open>The strings accepted by the prompt pattern \<^verbatim>\<open>" $"\<close>: those that end in a space.\<close>

definition ends_in_space :: "string \<Rightarrow> bool" where
  "ends_in_space str \<longleftrightarrow> str \<noteq> [] \<and> last str = SPC"

text \<open>
  Notions for the lines of a response.
  \<open>plain_line rx l\<close>: the bytes \<open>l\<close> are one line as the device sends it, ended by its only
  newline, that fits in the line buffer and at no byte of which the prompt test succeeds.
  \<open>overlong rx X\<close>: the bytes \<open>X\<close> start a line that is too long: some byte of \<open>X\<close> is to be
  stored when \<open>LINE_SIZE - 1\<close> bytes are stored already, with no newline and no success of
  the prompt test before it.
  \<open>shown l\<close>: what \<^verbatim>\<open>printf("%s", line)\<close> writes for the line assembled from \<open>l\<close>.
  \<open>in_time_for cfg tv s m\<close>: the timeout is disabled, or the next \<open>m\<close> readings of the clock
  succeed and are not later than the deadline \<open>tv\<close>.
\<close>

definition plain_line :: "(string \<Rightarrow> bool) \<Rightarrow> string \<Rightarrow> bool" where
  "plain_line rx l \<longleftrightarrow>
     l \<noteq> [] \<and> last l = LF \<and> LF \<notin> set (butlast l)
     \<and> (\<forall>j<length l. \<not> hit rx [] l j) \<and> length (strip_cr l) < LINE_SIZE"

definition overlong :: "(string \<Rightarrow> bool) \<Rightarrow> string \<Rightarrow> bool" where
  "overlong rx X \<longleftrightarrow>
     (\<exists>k<length X. X ! k \<noteq> CR \<and> length (strip_cr (take k X)) = LINE_SIZE - 1
         \<and> LF \<notin> set (take k X) \<and> (\<forall>j<k. \<not> hit rx [] X j))"

definition shown :: "string \<Rightarrow> string" where
  "shown l = cstr (strip_cr l)"

definition in_time_for :: "config \<Rightarrow> timeval \<Rightarrow> state \<Rightarrow> nat \<Rightarrow> bool" where
  "in_time_for cfg tv s m \<longleftrightarrow>
     opt_timeout cfg \<le> 0
     \<or> (\<forall>i<m. \<exists>now. clock s (ticks s + i) = Some now \<and> \<not> later now tv)"



fun attempt_calls :: "bool \<Rightarrow> attempt \<Rightarrow> syscall list" where
  "attempt_calls force (Open_fail e) = [Sys_open]"
| "attempt_calls force (Open_ok fd lk) = (if force then [Sys_open] else [Sys_open, Sys_flock])"




definition terminal_ok :: "state \<Rightarrow> bool" where
  "terminal_ok s \<longleftrightarrow> excl_ok s \<and> getattr_ok s \<and> setattr_ok s \<and> flush_ok s"

text \<open>
  The state at the start of the process in a world without failures: the static buffer is
  zeroed, the clock stands still, every open succeeds, \<^verbatim>\<open>write\<close> writes all it is given.
\<close>

definition fresh :: "dev_event list \<Rightarrow> state" where
  "fresh d =
     \<lparr>buf = replicate BUF_SIZE NUL, pos = 0, n = 0, dev = d,
      clock = (\<lambda>i. Some \<lparr>tv_sec = 0, tv_usec = 0\<rparr>), ticks = 0,
      opens = (\<lambda>i. Open_ok 3 Lock_ok), tries = 0,
      excl_ok = True, getattr_ok = True, setattr_ok = True, flush_ok = True,
      malloc_ok = True, write_result = (\<lambda>len. int len),
      stdout = [], calls = []\<rparr>"

text \<open>The options as \<^verbatim>\<open>main\<close> leaves them when only the device is given.\<close>

definition default_config :: config where
  "default_config =
     \<lparr>opt_dev = Some ''/dev/ttyUSB0'', opt_timeout = DEFAULT_TIMEOUT_MS, opt_debug = 0,
      opt_force = False, regex_prompt = default_prompt\<rparr>"

section \<open>Properties\<close>

subsection \<open>Evaluation on concrete runs\<close>

lemmas run_defs =
  main_def join_words_def joined_def ser_open_def set_raw_def timeout_init_def timed_out_def get_time_def
  deadline_after_def later_def open_loop.simps try_open_def wait_echo.simps
  collect_response.simps ser_readline_def readline_loop.simps getc_skip_cr.simps ser_getc_def
  pr_debug_def sys_def Let_def strstr_def cstr_def

lemmas world_defs =
  default_config_def fresh_def default_prompt_def is_alnum_def DEFAULT_TIMEOUT_MS_def
  BUF_SIZE_def LINE_SIZE_def RETRY_MS_def CR_def LF_def NUL_def SPC_def

subsection \<open>The byte reader delivers the stream\<close>

lemma printed_append [simp]: "printed (xs @ ys) = printed xs @ printed ys"
  by (induction xs rule: printed.induct) auto

lemma touched_refl: "touched cfg s s"
  by (simp add: touched_def)

lemma touched_trans:
  assumes "touched cfg s s1" "touched cfg s1 s2"
  shows "touched cfg s s2"
proof -
  have a: "s1\<lparr>buf := buf s, pos := pos s, n := n s, dev := dev s, stdout := stdout s\<rparr> = s"
    and b: "s2\<lparr>buf := buf s1, pos := pos s1, n := n s1, dev := dev s1, stdout := stdout s1\<rparr> = s1"
    using assms by (simp_all add: touched_def)
  have "s2\<lparr>buf := buf s, pos := pos s, n := n s, dev := dev s, stdout := stdout s\<rparr>
      = (s2\<lparr>buf := buf s1, pos := pos s1, n := n s1, dev := dev s1, stdout := stdout s1\<rparr>)
          \<lparr>buf := buf s, pos := pos s, n := n s, dev := dev s, stdout := stdout s\<rparr>"
    by simp
  also have "\<dots> = s1\<lparr>buf := buf s, pos := pos s, n := n s, dev := dev s, stdout := stdout s\<rparr>"
    by (simp only: b)
  also have "\<dots> = s" by (rule a)
  finally show ?thesis
    using assms by (simp add: touched_def)
qed

lemma ser_getc_buffered:
  assumes "reader_ok s" "int (pos s) < n s"
  shows "ser_getc cfg s = (Inr (buf s ! pos s), s\<lparr>pos := Suc (pos s)\<rparr>)"
  using assms by (simp add: ser_getc_def)

lemma ser_getc_stream:
  assumes "reader_ok s" "stream cfg s = c # rest"
  shows "\<exists>s'. ser_getc cfg s = (Inr c, s') \<and> reader_ok s' \<and> stream cfg s' = rest \<and> touched cfg s s'"
proof (cases "int (pos s) < n s")
  case True
  then have "pos s < length (take (nat (n s)) (buf s))"
    using assms(1) by (simp add: reader_ok_def)
  then have "drop (pos s) (take (nat (n s)) (buf s)) = buf s ! pos s # drop (Suc (pos s)) (take (nat (n s)) (buf s))"
    by (metis Cons_nth_drop_Suc nth_take length_take min_less_iff_conj)
  with assms(2) have c: "c = buf s ! pos s" 
    and r: "rest = drop (Suc (pos s)) (take (nat (n s)) (buf s)) @ incoming (opt_timeout cfg) (dev s)"
    by (simp_all add: stream_def)
  have t: "touched cfg s (s\<lparr>pos := Suc (pos s)\<rparr>)"
    by (simp add: touched_def)
  show ?thesis
    using True assms(1) c r t by (simp add: ser_getc_buffered stream_def reader_ok_def)
next
  case False
  then have e: "drop (pos s) (take (nat (n s)) (buf s)) = []" by simp
  with assms(2) have inc: "incoming (opt_timeout cfg) (dev s) = c # rest"
    by (simp add: stream_def)
  then obtain d bs es where dv: "dev s = Data d bs # es" 
    and rdy: "opt_timeout cfg < 0 \<or> int d \<le> opt_timeout cfg" and ne: "bs \<noteq> []"
    and bsr: "bs @ incoming (opt_timeout cfg) es = c # rest"
    by (cases "(opt_timeout cfg, dev s)" rule: incoming.cases) (auto split: if_splits)
  obtain k bs' es' where rd: "read_dev BUF_SIZE (dev s) = ((k, bs'), es')"
    by (metis prod.exhaust)
  have k: "k = int (length bs')" and bs': "bs' = take BUF_SIZE bs"
    and es': "es' = (if drop BUF_SIZE bs = [] then es else Data 0 (drop BUF_SIZE bs) # es)"
    using rd dv by auto
  have kpos: "0 < k" using k bs' ne by (simp add: BUF_SIZE_def)
  have pl: "poll_dev (opt_timeout cfg) (dev s) = Some 1"
    using dv rdy by auto
  define s' where "s' = snd (ser_getc cfg s)"
  have B: "0 < BUF_SIZE" by (simp add: BUF_SIZE_def)
  obtain x xs where bsx: "bs = x # xs" using ne by (cases bs) auto
  have bs'x: "bs' = x # take (BUF_SIZE - 1) xs"
    using bs' bsx B by (simp add: take_Cons')
  have hd: "bs' ! 0 = c" using bs'x bsr bsx by simp
  have "take (BUF_SIZE - 1) xs @ drop BUF_SIZE bs = xs"
    using bsx B by (simp add: drop_Cons')
  then have "(drop (Suc 0) bs' @ drop BUF_SIZE bs) @ incoming (opt_timeout cfg) es = rest"
    using bs'x bsr bsx by simp
  then have tl: "drop (Suc 0) bs' @ drop BUF_SIZE bs @ incoming (opt_timeout cfg) es = rest"
    by simp
  have inc': "incoming (opt_timeout cfg) es' = drop BUF_SIZE bs @ incoming (opt_timeout cfg) es"
    using es' by auto
  have len: "length bs' \<le> BUF_SIZE" "0 < length bs'" using bs' kpos k by simp_all
  have g: "ser_getc cfg s = (Inr c, s')"
    unfolding s'_def using False pl rd kpos k hd len
    by (simp add: ser_getc_def Let_def pr_debug_def nth_append)
  have ok: "reader_ok s'"
    unfolding s'_def using False pl rd kpos k len assms(1)
    by (simp add: ser_getc_def Let_def pr_debug_def reader_ok_def)
  have st: "stream cfg s' = rest"
    unfolding s'_def using False pl rd kpos k len tl inc'
    by (simp add: ser_getc_def Let_def pr_debug_def stream_def)
  have to: "touched cfg s s'"
    unfolding s'_def using False pl rd kpos k 
    by (simp add: ser_getc_def Let_def pr_debug_def touched_def)
  show ?thesis using g ok st to by blast
qed

lemma ser_getc_starved:
  assumes "reader_ok s" "stream cfg s = []"
  shows "\<exists>e s'. ser_getc cfg s = (Inl e, s') \<and> starved e \<and> touched cfg s s'"
proof -
  have p: "int (pos s) \<ge> n s"
  proof (rule ccontr)
    assume "\<not> n s \<le> int (pos s)"
    then have "pos s < length (take (nat (n s)) (buf s))"
      using assms(1) by (simp add: reader_ok_def)
    then have "drop (pos s) (take (nat (n s)) (buf s)) \<noteq> []" by (simp add: not_le)
    with assms(2) show False by (simp add: stream_def)
  qed
  have inc: "incoming (opt_timeout cfg) (dev s) = []"
    using assms(2) by (simp add: stream_def)
  define r where "r = ser_getc cfg s"
  have "(\<exists>e. fst r = Inl e \<and> starved e) \<and> touched cfg s (snd r)"
  proof (cases "dev s")
    case Nil
    then show ?thesis
      unfolding r_def using p
      by (simp add: ser_getc_def Let_def pr_debug_def starved_def touched_def)
  next
    case (Cons ev es)
    show ?thesis
    proof (cases ev)
      case (Data d bs)
      then show ?thesis
        unfolding r_def using p inc Cons
        by (auto simp add: ser_getc_def Let_def pr_debug_def starved_def touched_def
             split: if_splits)
    next
      case (Read_fails d)
      then show ?thesis
        unfolding r_def using p Cons
        by (simp add: ser_getc_def Let_def pr_debug_def starved_def touched_def)
    next
      case Poll_fails
      then show ?thesis
        unfolding r_def using p Cons
        by (simp add: ser_getc_def Let_def pr_debug_def starved_def touched_def)
    qed
  qed
  then show ?thesis
    unfolding r_def by (metis prod.collapse)
qed

subsection \<open>The line assembler follows the stream\<close>

lemma yields_trans:
  "touched cfg s s1 \<Longrightarrow> yields cfg s1 r v \<Longrightarrow> yields cfg s r v"
  by (cases r; cases v) (auto intro: touched_trans)

lemma reader_ok_pr_debug [simp]: "reader_ok (pr_debug cfg t s) = reader_ok s"
  by (simp add: pr_debug_def reader_ok_def)

lemma stream_pr_debug [simp]: "stream cfg (pr_debug cfg t s) = stream cfg s"
  by (simp add: pr_debug_def stream_def)

lemma touched_pr_debug: "touched cfg s (pr_debug cfg t s)"
  by (simp add: pr_debug_def touched_def)

lemma readline_loop_yields:
  assumes "reader_ok s" "stream cfg s = S"
  shows "yields cfg s (readline_loop cfg line s) (assemble (regex_prompt cfg) line S)"
  using assms
proof (induction S arbitrary: s line)
  case Nil
  then obtain e s' where "ser_getc cfg s = (Inl e, s')" "starved e" "touched cfg s s'"
    using ser_getc_starved by blast
  then show ?case
    by (simp add: readline_loop.simps [of cfg line s] getc_skip_cr.simps [of cfg s])
next
  case (Cons c cs)
  then obtain s1 where g: "ser_getc cfg s = (Inr c, s1)" and ok: "reader_ok s1"
    and st: "stream cfg s1 = cs" and to: "touched cfg s s1"
    using ser_getc_stream by blast
  show ?case
  proof (cases "c = CR")
    case True
    have "readline_loop cfg line s = readline_loop cfg line s1"
      using g True
      by (simp add: readline_loop.simps [of cfg line s] readline_loop.simps [of cfg line s1]
            getc_skip_cr.simps [of cfg s])
    moreover have "yields cfg s1 (readline_loop cfg line s1) (assemble (regex_prompt cfg) line cs)"
      using Cons.IH ok st by blast
    ultimately show ?thesis
      using True to by (simp add: yields_trans)
  next
    case False
    have sk: "getc_skip_cr cfg s = (Inr c, s1)"
      using g False by (simp add: getc_skip_cr.simps [of cfg s])
    have ih: "yields cfg s1 (readline_loop cfg (line @ [c]) s1)
                (assemble (regex_prompt cfg) (line @ [c]) cs)"
      using Cons.IH ok st by blast
    have to2: "touched cfg s (pr_debug cfg T_prompt_seen s1)"
      using to touched_pr_debug touched_trans by blast
    show ?thesis
      using False sk ok st to to2 yields_trans [OF to ih]
      by (simp add: readline_loop.simps [of cfg line s] Let_def)
  qed
qed

lemma hit_Cons_0: "hit rx line (c # cs) 0 \<longleftrightarrow> c \<noteq> CR \<and> rx (cstr (line @ [c]))"
  by (auto simp: hit_def strip_cr_def)

lemma hit_Cons_Suc:
  "hit rx line (c # cs) (Suc k) \<longleftrightarrow> hit rx (if c = CR then line else line @ [c]) cs k"
  by (simp add: hit_def strip_cr_def)

lemma strip_cr_Cons: "strip_cr (c # cs) = (if c = CR then strip_cr cs else c # strip_cr cs)"
  by (simp add: strip_cr_def)

lemma strip_cr_Nil: "strip_cr [] = []"
  by (simp add: strip_cr_def)

lemma LF_neq_CR: "LF \<noteq> CR" by (simp add: LF_def CR_def)

lemma assemble_prompt_iff:
  "assemble rx line S = V_prompt rest \<longleftrightarrow>
     (\<exists>k<length S. rest = drop (Suc k) S \<and> hit rx line S k \<and> (\<forall>j<k. \<not> hit rx line S j)
         \<and> LF \<notin> set (take k S)
         \<and> length line + length (strip_cr (take (Suc k) S)) < LINE_SIZE)"
proof (induction S arbitrary: line)
  case Nil
  then show ?case by simp
next
  case (Cons c cs)
  show ?case
    unfolding length_Cons Ex_less_Suc2
    by (auto simp add: Cons.IH hit_Cons_0 hit_Cons_Suc All_less_Suc2 strip_cr_Cons strip_cr_Nil
          LF_neq_CR LINE_SIZE_def)
qed

lemma assemble_line_iff:
  "assemble rx line S = V_line l rest \<longleftrightarrow>
     (\<exists>k<length S. S ! k = LF \<and> rest = drop (Suc k) S \<and> l = line @ strip_cr (take (Suc k) S)
         \<and> (\<forall>j<Suc k. \<not> hit rx line S j)
         \<and> LF \<notin> set (take k S)
         \<and> length line + length (strip_cr (take (Suc k) S)) < LINE_SIZE)"
proof (induction S arbitrary: line)
  case Nil
  then show ?case by simp
next
  case (Cons c cs)
  show ?case
    unfolding length_Cons Ex_less_Suc2
    by (auto simp add: Cons.IH hit_Cons_0 hit_Cons_Suc All_less_Suc2 strip_cr_Cons strip_cr_Nil
          LF_neq_CR LINE_SIZE_def)
qed

lemma assemble_too_long_iff:
  "assemble rx line S = V_too_long \<longleftrightarrow>
     (\<exists>k<length S. S ! k \<noteq> CR \<and> (\<forall>j<k. \<not> hit rx line S j) \<and> LF \<notin> set (take k S)
         \<and> LINE_SIZE - 1 \<le> length line + length (strip_cr (take k S)))"
proof (induction S arbitrary: line)
  case Nil
  then show ?case by simp
next
  case (Cons c cs)
  show ?case
    unfolding length_Cons Ex_less_Suc2
    by (auto simp add: Cons.IH hit_Cons_0 hit_Cons_Suc All_less_Suc2 strip_cr_Cons strip_cr_Nil
          LF_neq_CR LINE_SIZE_def)
qed

lemma assemble_line_shape:
  "assemble rx line S = V_line l rest \<Longrightarrow>
     \<exists>ys. l = line @ ys \<and> ys \<noteq> [] \<and> last ys = LF \<and> LF \<notin> set (butlast ys) \<and> CR \<notin> set ys
        \<and> length l < LINE_SIZE
        \<and> (\<forall>m. 0 < m \<and> m \<le> length ys \<longrightarrow> \<not> rx (cstr (line @ take m ys)))"
proof (induction S arbitrary: line)
  case Nil
  then show ?case by simp
next
  case (Cons c cs)
  show ?case
  proof (cases "c = CR")
    case True
    with Cons show ?thesis by simp
  next
    case False
    note nocr = this
    show ?thesis
    proof (cases "c = LF")
      case True
      with Cons.prems nocr have l: "l = line @ [c]" and ok: "\<not> rx (cstr (line @ [c]))"
        and len: "\<not> LINE_SIZE - 1 \<le> length line"
        by (auto split: if_splits)
      have "\<forall>m. 0 < m \<and> m \<le> length [c] \<longrightarrow> \<not> rx (cstr (line @ take m [c]))"
        using ok by (auto simp: take_Cons')
      then show ?thesis
        using l True nocr len by (intro exI [of _ "[c]"]) (simp add: LINE_SIZE_def)
    next
      case False
      with Cons.prems nocr have rec: "assemble rx (line @ [c]) cs = V_line l rest"
        and ok: "\<not> rx (cstr (line @ [c]))"
        by (auto split: if_splits)
      from Cons.IH [OF rec] obtain ys where ys: "l = (line @ [c]) @ ys" "ys \<noteq> []" "last ys = LF"
        "LF \<notin> set (butlast ys)" "CR \<notin> set ys" "length l < LINE_SIZE"
        "\<forall>m. 0 < m \<and> m \<le> length ys \<longrightarrow> \<not> rx (cstr ((line @ [c]) @ take m ys))"
        by blast
      have "\<forall>m. 0 < m \<and> m \<le> length (c # ys) \<longrightarrow> \<not> rx (cstr (line @ take m (c # ys)))"
      proof (intro allI impI)
        fix m assume m: "0 < m \<and> m \<le> length (c # ys)"
        show "\<not> rx (cstr (line @ take m (c # ys)))"
        proof (cases m)
          case 0
          with m show ?thesis by simp
        next
          case (Suc m')
          show ?thesis
          proof (cases "m' = 0")
            case True
            with Suc ok show ?thesis by simp
          next
            case False
            with Suc m ys(7) show ?thesis by simp
          qed
        qed
      qed
      then show ?thesis
        using ys False nocr by (intro exI [of _ "c # ys"]) simp
    qed
  qed
qed

lemma starved_not_too_long: "starved e \<Longrightarrow> e \<noteq> Fatal Line_too_long"
  by (auto simp: starved_def)

lemma yields_prompt:
  "yields cfg s (x, s') v \<Longrightarrow> x = Inr None \<longleftrightarrow> (\<exists>rest. v = V_prompt rest)"
  by (cases v) auto

lemma yields_line:
  "yields cfg s (x, s') v \<Longrightarrow> x = Inr (Some l) \<longleftrightarrow> (\<exists>rest. v = V_line l rest)"
  by (cases v) auto

lemma yields_too_long:
  "yields cfg s (x, s') v \<Longrightarrow> x = Inl (Fatal Line_too_long) \<longleftrightarrow> v = V_too_long"
  by (cases v) (auto dest: starved_not_too_long)

lemma ser_readline_yields:
  "reader_ok s \<Longrightarrow>
   yields cfg s (ser_readline cfg s) (assemble (regex_prompt cfg) [] (stream cfg s))"
  by (simp add: ser_readline_def readline_loop_yields)

lemma ser_readline_prompt_iff:
  assumes "reader_ok s"
  shows "ser_readline cfg s = (Inr None, s') \<longleftrightarrow>
           (\<exists>k. first_match cfg (stream cfg s) k \<and> within_line (stream cfg s) k
                \<and> stream cfg s' = drop (Suc k) (stream cfg s))
           \<and> s' = snd (ser_readline cfg s)"
proof -
  obtain x t where r: "ser_readline cfg s = (x, t)" by (cases "ser_readline cfg s")
  have y: "yields cfg s (x, t) (assemble (regex_prompt cfg) [] (stream cfg s))"
    using ser_readline_yields [OF assms, of cfg] r by simp
  show ?thesis
  proof
    assume a: "ser_readline cfg s = (Inr None, s')"
    with r have x: "x = Inr None" and t: "t = s'" by simp_all
    from yields_prompt [OF y] x obtain rest where
      v: "assemble (regex_prompt cfg) [] (stream cfg s) = V_prompt rest" by blast
    with y x t have "stream cfg s' = rest" by simp
    with v [unfolded assemble_prompt_iff] a show
      "(\<exists>k. first_match cfg (stream cfg s) k \<and> within_line (stream cfg s) k
                \<and> stream cfg s' = drop (Suc k) (stream cfg s))
           \<and> s' = snd (ser_readline cfg s)"
      by (auto simp: first_match_def within_line_def)
  next
    assume "(\<exists>k. first_match cfg (stream cfg s) k \<and> within_line (stream cfg s) k
                \<and> stream cfg s' = drop (Suc k) (stream cfg s))
           \<and> s' = snd (ser_readline cfg s)"
    then obtain k where k: "first_match cfg (stream cfg s) k" "within_line (stream cfg s) k"
      and s': "s' = t" using r by auto
    have "assemble (regex_prompt cfg) [] (stream cfg s) = V_prompt (drop (Suc k) (stream cfg s))"
      unfolding assemble_prompt_iff using k
      by (auto simp: first_match_def within_line_def)
    with y have "x = Inr None" by simp
    with r s' show "ser_readline cfg s = (Inr None, s')" by simp
  qed
qed

lemma ser_readline_line_shape:
  assumes "reader_ok s" "ser_readline cfg s = (Inr (Some l), s')"
  shows "l \<noteq> [] \<and> last l = LF \<and> LF \<notin> set (butlast l) \<and> CR \<notin> set l \<and> length l < LINE_SIZE
         \<and> (\<forall>m. 0 < m \<and> m \<le> length l \<longrightarrow> \<not> regex_prompt cfg (cstr (take m l)))"
proof -
  have "yields cfg s (Inr (Some l), s') (assemble (regex_prompt cfg) [] (stream cfg s))"
    using ser_readline_yields [OF assms(1), of cfg] assms(2) by simp
  from yields_line [OF this, of l] obtain rest where
    "assemble (regex_prompt cfg) [] (stream cfg s) = V_line l rest" by blast
  from assemble_line_shape [OF this] show ?thesis by auto
qed

lemma assemble_strip_cr:
  "decision (assemble rx line (strip_cr S)) = decision (assemble rx line S)"
  by (induction S arbitrary: line) (simp_all add: strip_cr_Cons strip_cr_Nil)

lemma yields_decision:
  "yields cfg s (x, s') v \<Longrightarrow>
   decision v = (if (\<exists>r. x = Inr r) \<or> x = Inl (Fatal Line_too_long) then Some x else None)"
  by (cases v) (auto dest: starved_not_too_long)

lemma ser_readline_decision:
  assumes "reader_ok s"
  shows "decision (assemble (regex_prompt cfg) [] (stream cfg s)) =
           (if (\<exists>r. fst (ser_readline cfg s) = Inr r)
                 \<or> fst (ser_readline cfg s) = Inl (Fatal Line_too_long)
            then Some (fst (ser_readline cfg s)) else None)"
  using yields_decision [of cfg s "fst (ser_readline cfg s)" "snd (ser_readline cfg s)"]
    ser_readline_yields [OF assms, of cfg]
  by simp

lemma collect_response_stops:
  "ser_readline cfg s = (Inl e, s1) \<Longrightarrow> collect_response cfg tv s = (Inl e, s1)"
  by (simp add: collect_response.simps [of cfg tv s])

lemma wait_echo_stops:
  "ser_readline cfg s = (Inl e, s1) \<Longrightarrow> wait_echo cfg cmd tv s = (Inl e, s1)"
  by (simp add: wait_echo.simps [of cfg cmd tv s])

lemma ser_readline_promptI:
  assumes "reader_ok s" "first_match cfg (stream cfg s) k" "within_line (stream cfg s) k"
  shows "\<exists>s'. ser_readline cfg s = (Inr None, s')
             \<and> stream cfg s' = drop (Suc k) (stream cfg s)"
proof -
  obtain x t where r: "ser_readline cfg s = (x, t)" by (cases "ser_readline cfg s")
  have y: "yields cfg s (x, t) (assemble (regex_prompt cfg) [] (stream cfg s))"
    using ser_readline_yields [OF assms(1), of cfg] r by simp
  have "assemble (regex_prompt cfg) [] (stream cfg s) = V_prompt (drop (Suc k) (stream cfg s))"
    unfolding assemble_prompt_iff using assms(2,3)
    by (auto simp: first_match_def within_line_def)
  with y r show ?thesis by simp
qed

subsection \<open>The default prompt pattern\<close>

lemma default_prompt_iff:
  "default_prompt str \<longleftrightarrow>
     (\<exists>a m. str = a @ [m, SPC] \<and> (m = CHR ''#'' \<or> m = CHR ''$'' \<or> m = CHR ''>'')
        \<and> list_all is_alnum a)"
proof
  assume "default_prompt str"
  then obtain m ra where r: "rev str = SPC # m # ra"
    and m: "m = CHR ''#'' \<or> m = CHR ''$'' \<or> m = CHR ''>''" and a: "list_all is_alnum ra"
    by (auto simp: default_prompt_def split: list.splits)
  from r have "str = rev ra @ [m, SPC]"
    by (metis append.assoc append_Cons append_Nil rev.simps(2) rev_rev_ident)
  with m a show "\<exists>a m. str = a @ [m, SPC] \<and> (m = CHR ''#'' \<or> m = CHR ''$'' \<or> m = CHR ''>'')
        \<and> list_all is_alnum a"
    by (intro exI [of _ "rev ra"] exI [of _ m]) simp
next
  assume "\<exists>a m. str = a @ [m, SPC] \<and> (m = CHR ''#'' \<or> m = CHR ''$'' \<or> m = CHR ''>'')
        \<and> list_all is_alnum a"
  then show "default_prompt str"
    by (auto simp: default_prompt_def)
qed

lemma default_prompt_last: "default_prompt str \<Longrightarrow> str \<noteq> [] \<and> last str = SPC"
  by (auto simp: default_prompt_iff)

subsection \<open>The timeout clock\<close>

text \<open>
  Within the range of \<^verbatim>\<open>int\<close> the deadline is the reading plus the budget, with the
  microseconds carried into the seconds.
\<close>

lemma int32_id: "- 2147483648 \<le> x \<Longrightarrow> x \<le> 2147483647 \<Longrightarrow> int32 x = x"
  by (simp add: int32_def)

lemma div_quot_nonneg: "0 \<le> a \<Longrightarrow> 0 < b \<Longrightarrow> div_quot a b = a div b"
  by (cases "a = 0") (simp_all add: div_quot_def)

lemma div_rem_nonneg: "0 \<le> a \<Longrightarrow> 0 < b \<Longrightarrow> div_rem a b = a mod b"
  by (simp add: div_rem_def div_quot_nonneg minus_mult_div_eq_mod)

lemma deadline_after_exact:
  assumes "0 < b" "0 \<le> tv_usec now" "tv_usec now < 1000000"
    and "tv_usec now + b * 1000 \<le> 2147483647"
  shows "0 \<le> tv_usec (deadline_after b now) \<and> tv_usec (deadline_after b now) < 1000000
       \<and> tv_sec (deadline_after b now) * 1000000 + tv_usec (deadline_after b now)
           = tv_sec now * 1000000 + tv_usec now + b * 1000"
proof -
  have p: "int32 (b * 1000) = b * 1000"
    using assms by (intro int32_id) auto
  define u where "u = tv_usec now + b * 1000"
  have u: "0 \<le> u" "int32 u = u"
    using assms by (auto simp: u_def intro!: int32_id)
  show ?thesis
  proof (cases "u \<ge> 1000000")
    case True
    then have d: "deadline_after b now =
        \<lparr>tv_sec = tv_sec now + u div 1000000, tv_usec = u mod 1000000\<rparr>"
      using p u by (simp add: deadline_after_def Let_def u_def [symmetric] div_quot_nonneg
            div_rem_nonneg)
    show ?thesis
      unfolding d using u by (simp add: u_def [symmetric] algebra_simps)
  next
    case False
    then have d: "deadline_after b now = \<lparr>tv_sec = tv_sec now, tv_usec = u\<rparr>"
      using p by (simp add: deadline_after_def Let_def u_def [symmetric])
    show ?thesis
      unfolding d using u False by (simp add: u_def [symmetric])
  qed
qed

lemma timed_out_disabled:
  "opt_timeout cfg \<le> 0 \<Longrightarrow> timed_out cfg tv s = (Inr False, s)"
  by (simp add: timed_out_def)

lemma timeout_init_disabled:
  "opt_timeout cfg \<le> 0 \<Longrightarrow> timeout_init cfg tv s = (Inr tv, s)"
  by (simp add: timeout_init_def)

lemma timed_out_enabled:
  "0 < opt_timeout cfg \<Longrightarrow> clock s (ticks s) = Some now \<Longrightarrow>
   timed_out cfg tv s =
     (Inr (tv_sec now > tv_sec tv \<or> (tv_sec now = tv_sec tv \<and> tv_usec now > tv_usec tv)),
      s\<lparr>ticks := Suc (ticks s)\<rparr>)"
  by (simp add: timed_out_def get_time_def later_def)

lemma timeout_init_enabled:
  "0 < opt_timeout cfg \<Longrightarrow> clock s (ticks s) = Some now \<Longrightarrow>
   timeout_init cfg tv s = (Inr (deadline_after (opt_timeout cfg) now), s\<lparr>ticks := Suc (ticks s)\<rparr>)"
  by (simp add: timeout_init_def get_time_def)

lemma ser_getc_negative_budget:
  "opt_timeout cfg < 0 \<Longrightarrow> fst (ser_getc cfg s) \<noteq> Inl (Fatal Timeout)"
  by (cases "(opt_timeout cfg, dev s)" rule: poll_dev.cases)
     (auto simp: ser_getc_def Let_def split: prod.splits)

subsection \<open>The echo test\<close>

lemma occurs_in_iff: "occurs_in needle hay \<longleftrightarrow> (\<exists>a b. hay = a @ needle @ b)"
proof (induction hay)
  case Nil
  then show ?case by auto
next
  case (Cons h hs)
  show ?case
  proof
    assume "occurs_in needle (h # hs)"
    then consider "prefix needle (h # hs)" | "occurs_in needle hs" by auto
    then show "\<exists>a b. h # hs = a @ needle @ b"
    proof cases
      case 1
      then obtain b where "h # hs = needle @ b" by (auto simp: prefix_def)
      then have "h # hs = [] @ needle @ b" by simp
      then show ?thesis by blast
    next
      case 2
      with Cons.IH obtain a b where "hs = a @ needle @ b" by blast
      then have "h # hs = (h # a) @ needle @ b" by simp
      then show ?thesis by blast
    qed
  next
    assume "\<exists>a b. h # hs = a @ needle @ b"
    then obtain a b where ab: "h # hs = a @ needle @ b" by blast
    show "occurs_in needle (h # hs)"
    proof (cases a)
      case Nil
      with ab have "prefix needle (h # hs)" by (simp add: prefix_def)
      then show ?thesis by simp
    next
      case (Cons x xs)
      with ab have "hs = xs @ needle @ b" by simp
      with Cons.IH show ?thesis by auto
    qed
  qed
qed

lemma cstr_id: "NUL \<notin> set b \<Longrightarrow> cstr b = b"
  by (auto simp: cstr_def)

lemma NUL_notin_cstr: "NUL \<notin> set (cstr b)"
  unfolding cstr_def by (metis (mono_tags, lifting) set_takeWhileD)

lemma SPC_neq_NUL: "SPC \<noteq> NUL" by (simp add: SPC_def NUL_def)

lemma LF_neq_NUL: "LF \<noteq> NUL" by (simp add: LF_def NUL_def)

lemma NUL_notin_join_from: "NUL \<notin> set (join_from i ws)"
  using SPC_neq_NUL by (induction i ws rule: join_from.induct) (auto simp: NUL_notin_cstr)

lemma NUL_notin_joined: "NUL \<notin> set (joined ws)"
  using LF_neq_NUL by (auto simp: joined_def NUL_notin_join_from)

lemma cstr_cuts_last:
  assumes "NUL \<in> set l"
  shows "set (cstr l) \<subseteq> set (butlast l)"
proof -
  have "dropWhile (\<lambda>c. c \<noteq> NUL) l \<noteq> []" using assms by simp
  moreover have "l = cstr l @ dropWhile (\<lambda>c. c \<noteq> NUL) l" by (simp add: cstr_def)
  ultimately have "butlast l = cstr l @ butlast (dropWhile (\<lambda>c. c \<noteq> NUL) l)"
    by (metis butlast_append)
  then show ?thesis by (metis Un_upper1 set_append)
qed

lemma echo_test_suffix:
  assumes "l \<noteq> []" "last l = LF" "LF \<notin> set (butlast l)"
  shows "strstr l (joined words) \<longleftrightarrow> NUL \<notin> set l \<and> suffix (joined words) l"
proof -
  obtain w where cmd: "joined words = w @ [LF]" by (simp add: joined_def)
  have c: "cstr (joined words) = joined words"
    by (rule cstr_id) (rule NUL_notin_joined)
  show ?thesis
  proof (cases "NUL \<in> set l")
    case True
    have "\<not> occurs_in (joined words) (cstr l)"
    proof
      assume "occurs_in (joined words) (cstr l)"
      then obtain a b where "cstr l = a @ (w @ [LF]) @ b"
        unfolding occurs_in_iff cmd by blast
      then have "LF \<in> set (cstr l)" by simp
      with cstr_cuts_last [OF True] assms(3) show False by blast
    qed
    with True c show ?thesis by (simp add: strstr_def)
  next
    case False
    then have l: "cstr l = l" by (rule cstr_id)
    have "occurs_in (joined words) l \<longleftrightarrow> suffix (joined words) l"
    proof
      assume "occurs_in (joined words) l"
      then obtain a b where ab: "l = a @ (w @ [LF]) @ b"
        unfolding occurs_in_iff cmd by blast
      have "b = []"
      proof (rule ccontr)
        assume "b \<noteq> []"
        then have "butlast l = a @ w @ [LF] @ butlast b"
          using ab by (simp add: butlast_append)
        with assms(3) show False by simp
      qed
      with ab cmd show "suffix (joined words) l" by (simp add: suffix_def)
    next
      assume "suffix (joined words) l"
      then obtain a where "l = a @ joined words @ []" by (auto simp: suffix_def)
      then show "occurs_in (joined words) l" unfolding occurs_in_iff by blast
    qed
    with False l c show ?thesis by (simp add: strstr_def)
  qed
qed

subsection \<open>The echo loop\<close>

lemma ser_getc_stops: "ser_getc cfg s = (Inl e, s') \<Longrightarrow> starved e"
  by (cases "(opt_timeout cfg, dev s)" rule: poll_dev.cases)
     (auto simp: ser_getc_def Let_def starved_def split: prod.splits if_splits)

lemma getc_skip_cr_stops: "getc_skip_cr cfg s = (Inl e, s') \<Longrightarrow> starved e"
proof (induction cfg s rule: getc_skip_cr.induct)
  case (1 cfg s)
  obtain r s1 where g: "ser_getc cfg s = (r, s1)" by (cases "ser_getc cfg s")
  show ?case
  proof (cases r)
    case (Inl x)
    with g "1.prems" ser_getc_stops [of cfg s x s1] show ?thesis
      by (simp add: getc_skip_cr.simps [of cfg s])
  next
    case (Inr d)
    with g "1.prems" "1.IH" [OF g [symmetric] Inr] show ?thesis
      by (simp add: getc_skip_cr.simps [of cfg s] split: if_splits)
  qed
qed

lemma readline_loop_stops:
  "readline_loop cfg line s = (Inl e, s') \<Longrightarrow> starved e \<or> e = Fatal Line_too_long"
proof (induction cfg line s rule: readline_loop.induct)
  case (1 cfg line s)
  obtain r s1 where g: "getc_skip_cr cfg s = (r, s1)" by (cases "getc_skip_cr cfg s")
  show ?case
  proof (cases r)
    case (Inl x)
    with g "1.prems" getc_skip_cr_stops [of cfg s x s1] show ?thesis
      by (simp add: readline_loop.simps [of cfg line s])
  next
    case (Inr c)
    with g "1.prems" "1.IH" [OF g [symmetric] Inr _ refl] show ?thesis
      by (simp add: readline_loop.simps [of cfg line s] Let_def split: if_splits)
  qed
qed

lemma ser_readline_stops:
  "ser_readline cfg s = (Inl e, s') \<Longrightarrow> e \<noteq> Fatal Command_echo_not_found"
  by (auto simp: ser_readline_def starved_def dest!: readline_loop_stops)

lemma timed_out_stops:
  "timed_out cfg tv s = (Inl e, s') \<Longrightarrow> e = Fatal Failed_to_get_time"
  by (auto simp: timed_out_def get_time_def split: if_splits option.splits)

lemma wait_echo_found:
  "ser_readline cfg s = (Inr (Some l), s1) \<Longrightarrow> strstr l cmd \<Longrightarrow>
   wait_echo cfg cmd tv s = (Inr (), s1)"
  by (simp add: wait_echo.simps [of cfg cmd tv s])

lemma wait_echo_not_found:
  "wait_echo cfg cmd tv s = (Inl (Fatal Command_echo_not_found), s') \<Longrightarrow>
   \<exists>s0. ser_readline cfg s0 = (Inr None, s')
      \<or> (\<exists>l s1. ser_readline cfg s0 = (Inr (Some l), s1) \<and> \<not> strstr l cmd
            \<and> timed_out cfg tv s1 = (Inr True, s'))"
proof (induction cfg cmd tv s rule: wait_echo.induct)
  case (1 cfg cmd tv s)
  obtain r s1 where g: "ser_readline cfg s = (r, s1)" by (cases "ser_readline cfg s")
  show ?case
  proof (cases r)
    case (Inl e)
    with g "1.prems" ser_readline_stops [of cfg s e s1] show ?thesis
      by (simp add: wait_echo.simps [of cfg cmd tv s])
  next
    case (Inr lo)
    show ?thesis
    proof (cases lo)
      case None
      with g Inr "1.prems" show ?thesis
        by (auto simp add: wait_echo.simps [of cfg cmd tv s])
    next
      case (Some l)
      note rl = g [unfolded Inr Some]
      show ?thesis
      proof (cases "strstr l cmd")
        case True
        with rl "1.prems" show ?thesis
          by (simp add: wait_echo.simps [of cfg cmd tv s])
      next
        case False
        obtain x s2 where t: "timed_out cfg tv s1 = (x, s2)" by (cases "timed_out cfg tv s1")
        show ?thesis
        proof (cases x)
          case (Inl e)
          with rl False t "1.prems" timed_out_stops [of cfg tv s1 e s2] show ?thesis
            by (simp add: wait_echo.simps [of cfg cmd tv s])
        next
          case (Inr expired)
          show ?thesis
          proof (cases expired)
            case True
            with rl False t Inr "1.prems" have "s' = s2"
              by (simp add: wait_echo.simps [of cfg cmd tv s])
            with rl False t Inr True show ?thesis
              by (intro exI [of _ s]) auto
          next
            case F: False
            with rl False t Inr "1.prems" have
              "wait_echo cfg cmd tv (pr_debug cfg (T_ignoring (cstr l)) s2)
                 = (Inl (Fatal Command_echo_not_found), s')"
              by (simp add: wait_echo.simps [of cfg cmd tv s])
            with "1.IH" [OF rl [symmetric] refl refl False t [symmetric] Inr] F
            show ?thesis by simp
          qed
        qed
      qed
    qed
  qed
qed

subsection \<open>The open loop\<close>


lemma try_open_ok:
  assumes "opens s (tries s) = Open_ok fd lk" "opt_force cfg \<or> lk = Lock_ok"
  shows "try_open cfg s =
           (Inr fd, s\<lparr>tries := Suc (tries s),
                      calls := calls s @ attempt_calls (opt_force cfg) (opens s (tries s))\<rparr>)"
  using assms by (auto simp: try_open_def sys_def Let_def)




lemma open_loop_success:
  assumes "opens s (tries s) = Open_ok fd lk" "opt_force cfg \<or> lk = Lock_ok"
  shows "open_loop cfg tv s =
           Some (Inr fd, s\<lparr>tries := Suc (tries s),
                  calls := calls s @ attempt_calls (opt_force cfg) (opens s (tries s))\<rparr>)"
  using try_open_ok [OF assms] by (simp add: open_loop.simps [of cfg tv s])




lemma set_raw_ok: "terminal_ok s \<Longrightarrow> set_raw fd s = (Inr fd, s)"
  by (simp add: set_raw_def terminal_ok_def)




subsection \<open>The default prompt on the stream\<close>

lemma not_alnum_controls:
  "\<not> is_alnum CR" "\<not> is_alnum LF" "\<not> is_alnum NUL" "\<not> is_alnum SPC"
  by (simp_all add: is_alnum_def CR_def LF_def NUL_def SPC_def)

lemma is_alnum_plain:
  "is_alnum c \<Longrightarrow> c \<noteq> CR \<and> c \<noteq> LF \<and> c \<noteq> NUL \<and> c \<noteq> SPC"
  using not_alnum_controls by auto

lemma is_marker_plain:
  "is_marker m \<Longrightarrow> m \<noteq> CR \<and> m \<noteq> LF \<and> m \<noteq> NUL \<and> m \<noteq> SPC"
  by (auto simp: is_marker_def CR_def LF_def NUL_def SPC_def)

lemma default_prompt_snoc:
  "default_prompt (xs @ [c]) \<Longrightarrow> c = SPC"
  using default_prompt_last [of "xs @ [c]"] by simp

lemma default_prompt_intro:
  "list_all is_alnum a \<Longrightarrow> is_marker m \<Longrightarrow> default_prompt (a @ [m, SPC])"
  unfolding default_prompt_iff is_marker_def by blast

lemma assemble_alnum_run:
  assumes "list_all is_alnum (line @ a)" "is_marker m" "length line + length a + 2 < LINE_SIZE"
  shows "assemble default_prompt line (a @ [m, SPC]) = V_prompt []"
  using assms
proof (induction a arbitrary: line)
  case Nil
  then have al: "list_all is_alnum line" by simp
  then have nn: "NUL \<notin> set line"
    using is_alnum_plain by (auto simp: list_all_iff)
  have c1: "cstr (line @ [m]) = line @ [m]"
    using nn is_marker_plain [OF Nil.prems(2)] by (intro cstr_id) auto
  have c2: "cstr (line @ [m, SPC]) = line @ [m, SPC]"
    using nn is_marker_plain [OF Nil.prems(2)] SPC_neq_NUL by (intro cstr_id) auto
  have n1: "\<not> default_prompt (line @ [m])"
    using default_prompt_snoc [of line m] is_marker_plain [OF Nil.prems(2)] by blast
  have y: "default_prompt (line @ [m, SPC])"
    using al Nil.prems(2) by (rule default_prompt_intro)
  have sp: "SPC \<noteq> CR" by (simp add: SPC_def CR_def)
  show ?case
    using Nil.prems(3) is_marker_plain [OF Nil.prems(2)] c1 c2 n1 y sp
    by (simp add: LINE_SIZE_def)
next
  case (Cons x xs)
  then have x: "is_alnum x" and al: "list_all is_alnum line" by simp_all
  have nn: "NUL \<notin> set line"
    using al is_alnum_plain by (auto simp: list_all_iff)
  have c1: "cstr (line @ [x]) = line @ [x]"
    using nn is_alnum_plain [OF x] by (intro cstr_id) auto
  have n1: "\<not> default_prompt (line @ [x])"
    using default_prompt_snoc [of line x] is_alnum_plain [OF x] by blast
  have ih: "assemble default_prompt (line @ [x]) (xs @ [m, SPC]) = V_prompt []"
    using Cons.prems by (intro Cons.IH) simp_all
  show ?case
    using Cons.prems(3) is_alnum_plain [OF x] c1 n1 ih
    by (simp add: LINE_SIZE_def)
qed

lemma assemble_default_prompt:
  assumes "default_prompt p" "length p < LINE_SIZE"
  shows "assemble default_prompt [] p = V_prompt []"
proof -
  from assms(1) obtain a m where p: "p = a @ [m, SPC]" and m: "is_marker m"
    and a: "list_all is_alnum a"
    unfolding default_prompt_iff is_marker_def by blast
  show ?thesis
    unfolding p using a m assms(2) p by (intro assemble_alnum_run) simp_all
qed

lemma assemble_reset_line:
  "assemble default_prompt [] (''reset'' @ [LF] @ rest) = V_line (''reset'' @ [LF]) rest"
  by (simp add: world_defs cstr_def)

lemma assemble_OK_line:
  "assemble default_prompt [] (''OK'' @ [LF] @ rest) = V_line (''OK'' @ [LF]) rest"
  by (simp add: world_defs cstr_def)

lemma touched_fields:
  assumes "touched cfg s s'"
  shows "clock s' = clock s" "ticks s' = ticks s" "calls s' = calls s"
    "write_result s' = write_result s"
proof -
  have e: "s'\<lparr>buf := buf s, pos := pos s, n := n s, dev := dev s, stdout := stdout s\<rparr> = s"
    using assms by (simp add: touched_def)
  show "clock s' = clock s" using arg_cong [OF e, of clock] by simp
  show "ticks s' = ticks s" using arg_cong [OF e, of ticks] by simp
  show "calls s' = calls s" using arg_cong [OF e, of calls] by simp
  show "write_result s' = write_result s" using arg_cong [OF e, of write_result] by simp
qed

lemma touched_quiet: "touched cfg s s' \<Longrightarrow> opt_debug cfg = 0 \<Longrightarrow> stdout s' = stdout s"
  by (simp add: touched_def)

lemma ser_readline_line:
  assumes "reader_ok s" "assemble (regex_prompt cfg) [] (stream cfg s) = V_line l rest"
  shows "\<exists>s'. ser_readline cfg s = (Inr (Some l), s') \<and> reader_ok s' \<and> stream cfg s' = rest
             \<and> touched cfg s s'"
  using ser_readline_yields [OF assms(1), of cfg] assms(2)
  by (cases "ser_readline cfg s") simp

lemma ser_readline_prompt:
  assumes "reader_ok s" "assemble (regex_prompt cfg) [] (stream cfg s) = V_prompt rest"
  shows "\<exists>s'. ser_readline cfg s = (Inr None, s') \<and> reader_ok s' \<and> stream cfg s' = rest
             \<and> touched cfg s s'"
  using ser_readline_yields [OF assms(1), of cfg] assms(2)
  by (cases "ser_readline cfg s") simp

lemma ser_open_first_try:
  assumes "opt_debug cfg = 0" "terminal_ok s" "opens s (tries s) = Open_ok fd lk"
    and "opt_force cfg \<or> lk = Lock_ok"
    and "0 < opt_timeout cfg \<longrightarrow> clock s (ticks s) \<noteq> None"
  shows "ser_open cfg tv0 s =
           Some (Inr fd, s\<lparr>tries := Suc (tries s),
                  ticks := ticks s + (if opt_timeout cfg \<le> 0 then 0 else 1),
                  calls := calls s @ (if opt_force cfg then [] else [Sys_capdrop])
                             @ attempt_calls (opt_force cfg) (Open_ok fd lk)\<rparr>)"
proof -
  define s3 where "s3 = s\<lparr>ticks := ticks s + (if opt_timeout cfg \<le> 0 then 0 else 1),
                  calls := calls s @ (if opt_force cfg then [] else [Sys_capdrop])\<rparr>"
  have o: "opens s3 (tries s3) = Open_ok fd lk"
    using assms(3) by (simp add: s3_def)
  have ol: "open_loop cfg tv s3 =
           Some (Inr fd, s3\<lparr>tries := Suc (tries s3),
                  calls := calls s3 @ attempt_calls (opt_force cfg) (opens s3 (tries s3))\<rparr>)" for tv
    by (rule open_loop_success [OF o assms(4)])
  have t: "terminal_ok (s3\<lparr>tries := Suc (tries s3),
                  calls := calls s3 @ attempt_calls (opt_force cfg) (opens s3 (tries s3))\<rparr>)"
    using assms(2) by (simp add: s3_def terminal_ok_def)
  show ?thesis
  proof (cases "opt_timeout cfg \<le> 0")
    case True
    then have "timeout_init cfg tv0 (pr_debug cfg T_opening
                 (if \<not> opt_force cfg then sys Sys_capdrop s else s)) = (Inr tv0, s3)"
      using assms(1) by (simp add: timeout_init_def pr_debug_def sys_def s3_def)
    then show ?thesis
      using ol [of tv0] set_raw_ok [OF t] o True
      by (simp add: ser_open_def Let_def) (simp add: s3_def)
  next
    case False
    with assms(5) obtain t0 where t0: "clock s (ticks s) = Some t0" by auto
    then have "timeout_init cfg tv0 (pr_debug cfg T_opening
                 (if \<not> opt_force cfg then sys Sys_capdrop s else s))
               = (Inr (deadline_after (opt_timeout cfg) t0), s3)"
      using assms(1) False
      by (simp add: timeout_init_def get_time_def pr_debug_def sys_def s3_def)
    then show ?thesis
      using ol [of "deadline_after (opt_timeout cfg) t0"] set_raw_ok [OF t] o False
      by (simp add: ser_open_def Let_def) (simp add: s3_def)
  qed
qed

subsection \<open>Responses that hold a line too long\<close>

lemma hit_append:
  "j < length l \<Longrightarrow> hit rx line (l @ rest) j = hit rx line l j"
  by (simp add: hit_def nth_append)

lemma assemble_plain_line:
  assumes "plain_line rx l"
  shows "assemble rx [] (l @ rest) = V_line (strip_cr l) rest"
proof -
  from assms obtain k where k: "length l = Suc k"
    by (cases l) (auto simp: plain_line_def)
  have l: "l = butlast l @ [LF]"
    using assms by (metis append_butlast_last_id plain_line_def)
  have bl: "length (butlast l) = k" using k by simp
  have "l ! k = LF"
    using assms k by (metis plain_line_def last_conv_nth diff_Suc_1)
  then have nth: "(l @ rest) ! k = LF"
    using k by (simp add: nth_append)
  have tk: "take (Suc k) (l @ rest) = l" "take k (l @ rest) = butlast l"
    "drop (Suc k) (l @ rest) = rest"
    using k by (simp_all add: butlast_conv_take)
  have h: "\<forall>j<Suc k. \<not> hit rx [] (l @ rest) j"
    using assms k by (simp add: hit_append plain_line_def)
  show ?thesis
    unfolding assemble_line_iff
    using assms nth tk h k
    by (intro exI [of _ k]) (simp add: plain_line_def)
qed

lemma assemble_overlong:
  "overlong rx X \<Longrightarrow> assemble rx [] X = V_too_long"
  unfolding assemble_too_long_iff overlong_def by auto

lemma ser_readline_too_long:
  assumes "reader_ok s" "overlong (regex_prompt cfg) (stream cfg s)"
  shows "\<exists>s'. ser_readline cfg s = (Inl (Fatal Line_too_long), s') \<and> touched cfg s s'"
  using ser_readline_yields [OF assms(1), of cfg] assemble_overlong [OF assms(2)]
  by (cases "ser_readline cfg s") simp

lemma touched_printed: "touched cfg s s' \<Longrightarrow> printed (stdout s') = printed (stdout s)"
  by (simp add: touched_def)

lemma collect_response_overlong:
  assumes "reader_ok s" "stream cfg s = concat ls @ X"
    and "\<forall>l\<in>set ls. plain_line (regex_prompt cfg) l" "overlong (regex_prompt cfg) X"
    and "in_time_for cfg tv s (length ls)"
  shows "\<exists>s'. collect_response cfg tv s = (Inl (Fatal Line_too_long), s')
           \<and> printed (stdout s') = printed (stdout s) @ map shown ls
           \<and> (opt_debug cfg = 0 \<longrightarrow> stdout s' = stdout s @ map (\<lambda>l. Printed (shown l)) ls)"
  using assms
proof (induction ls arbitrary: s)
  case Nil
  then have "overlong (regex_prompt cfg) (stream cfg s)" by simp
  from ser_readline_too_long [OF Nil.prems(1) this] obtain s' where
    r: "ser_readline cfg s = (Inl (Fatal Line_too_long), s')" and t: "touched cfg s s'"
    by blast
  show ?case
    using collect_response_stops [OF r, of tv] touched_printed [OF t] t
    by (intro exI [of _ s']) (simp add: touched_def)
next
  case (Cons l ls)
  have pl: "plain_line (regex_prompt cfg) l" using Cons.prems(3) by simp
  have "assemble (regex_prompt cfg) [] (stream cfg s) = V_line (strip_cr l) (concat ls @ X)"
    using assemble_plain_line [OF pl, of "concat ls @ X"] Cons.prems(2) by simp
  from ser_readline_line [OF Cons.prems(1) this] obtain s1 where
    r: "ser_readline cfg s = (Inr (Some (strip_cr l)), s1)" and ok1: "reader_ok s1"
    and st1: "stream cfg s1 = concat ls @ X" and t1: "touched cfg s s1"
    by blast
  note f1 = touched_fields [OF t1]
  define s2 where "s2 = (if opt_timeout cfg \<le> 0 then s1 else s1\<lparr>ticks := Suc (ticks s1)\<rparr>)"
  have to: "timed_out cfg tv s1 = (Inr False, s2)"
  proof (cases "opt_timeout cfg \<le> 0")
    case True
    then show ?thesis by (simp add: timed_out_def s2_def)
  next
    case False
    with Cons.prems(5) obtain now where "clock s (ticks s + 0) = Some now" "\<not> later now tv"
      unfolding in_time_for_def by (metis length_Cons zero_less_Suc)
    with False f1 show ?thesis
      by (simp add: timed_out_def get_time_def s2_def)
  qed
  define s3 where "s3 = s2\<lparr>stdout := stdout s2 @ [Printed (cstr (strip_cr l))]\<rparr>"
  have step: "collect_response cfg tv s = collect_response cfg tv s3"
    using r to by (simp add: collect_response.simps [of cfg tv s] s3_def)
  have ok3: "reader_ok s3" and st3: "stream cfg s3 = concat ls @ X"
    using ok1 st1 by (simp_all add: s3_def s2_def reader_ok_def stream_def)
  have f3: "clock s3 = clock s" "ticks s3 = ticks s + (if opt_timeout cfg \<le> 0 then 0 else 1)"
    "stdout s3 = stdout s1 @ [Printed (shown l)]"
    using f1 by (simp_all add: s3_def s2_def shown_def)
  have it: "in_time_for cfg tv s3 (length ls)"
    using Cons.prems(5) f3 unfolding in_time_for_def
    by (auto simp: less_Suc_eq_0_disj)
  have "\<forall>l\<in>set ls. plain_line (regex_prompt cfg) l" using Cons.prems(3) by simp
  from Cons.IH [OF ok3 st3 this Cons.prems(4) it] obtain s' where
    c: "collect_response cfg tv s3 = (Inl (Fatal Line_too_long), s')"
    and p: "printed (stdout s') = printed (stdout s3) @ map shown ls"
    and q: "opt_debug cfg = 0 \<longrightarrow> stdout s' = stdout s3 @ map (\<lambda>l. Printed (shown l)) ls"
    by blast
  have "printed (stdout s3) = printed (stdout s) @ [shown l]"
    using f3(3) touched_printed [OF t1] by simp
  moreover have "opt_debug cfg = 0 \<longrightarrow> stdout s3 = stdout s @ [Printed (shown l)]"
    using f3(3) t1 by (simp add: touched_def)
  ultimately show ?case
    using step c p q by (intro exI [of _ s']) simp
qed

lemma timed_out_frame: "timed_out cfg tv s = (x, s') \<Longrightarrow> \<exists>t. s' = s\<lparr>ticks := t\<rparr>"
proof (cases "opt_timeout cfg \<le> 0")
  case True
  assume "timed_out cfg tv s = (x, s')"
  with True have "s' = s\<lparr>ticks := ticks s\<rparr>" by (simp add: timed_out_def)
  then show ?thesis ..
next
  case False
  assume "timed_out cfg tv s = (x, s')"
  with False have "s' = s\<lparr>ticks := Suc (ticks s)\<rparr>"
    by (cases "clock s (ticks s)") (auto simp: timed_out_def get_time_def)
  then show ?thesis ..
qed

lemma collect_response_overlong_fatal:
  assumes "reader_ok s" "stream cfg s = concat ls @ X"
    and "\<forall>l\<in>set ls. plain_line (regex_prompt cfg) l" "overlong (regex_prompt cfg) X"
  shows "\<exists>d s' m. collect_response cfg tv s = (Inl (Fatal d), s') \<and> m \<le> length ls
           \<and> printed (stdout s') = printed (stdout s) @ map shown (take m ls)"
  using assms
proof (induction ls arbitrary: s)
  case Nil
  then have "overlong (regex_prompt cfg) (stream cfg s)" by simp
  from ser_readline_too_long [OF Nil.prems(1) this] obtain s' where
    r: "ser_readline cfg s = (Inl (Fatal Line_too_long), s')" and t: "touched cfg s s'"
    by blast
  show ?case
    using collect_response_stops [OF r, of tv] touched_printed [OF t]
    by (intro exI [of _ Line_too_long] exI [of _ s'] exI [of _ 0]) simp
next
  case (Cons l ls)
  have pl: "plain_line (regex_prompt cfg) l" using Cons.prems(3) by simp
  have "assemble (regex_prompt cfg) [] (stream cfg s) = V_line (strip_cr l) (concat ls @ X)"
    using assemble_plain_line [OF pl, of "concat ls @ X"] Cons.prems(2) by simp
  from ser_readline_line [OF Cons.prems(1) this] obtain s1 where
    r: "ser_readline cfg s = (Inr (Some (strip_cr l)), s1)" and ok1: "reader_ok s1"
    and st1: "stream cfg s1 = concat ls @ X" and t1: "touched cfg s s1"
    by blast
  obtain x s2 where to: "timed_out cfg tv s1 = (x, s2)" by (cases "timed_out cfg tv s1")
  from timed_out_frame [OF to] obtain t where s2: "s2 = s1\<lparr>ticks := t\<rparr>" by blast
  have p2: "printed (stdout s2) = printed (stdout s)"
    using touched_printed [OF t1] s2 by simp
  show ?case
  proof (cases x)
    case (Inl e)
    with to timed_out_stops [of cfg tv s1 e s2] r p2 show ?thesis
      by (intro exI [of _ Failed_to_get_time] exI [of _ s2] exI [of _ 0])
         (simp add: collect_response.simps [of cfg tv s])
  next
    case (Inr expired)
    show ?thesis
    proof (cases expired)
      case True
      with to Inr r p2 show ?thesis
        by (intro exI [of _ Response_too_long] exI [of _ s2] exI [of _ 0])
           (simp add: collect_response.simps [of cfg tv s])
    next
      case False
      define s3 where "s3 = s2\<lparr>stdout := stdout s2 @ [Printed (cstr (strip_cr l))]\<rparr>"
      have step: "collect_response cfg tv s = collect_response cfg tv s3"
        using r to Inr False by (simp add: collect_response.simps [of cfg tv s] s3_def)
      have ok3: "reader_ok s3" and st3: "stream cfg s3 = concat ls @ X"
        using ok1 st1 by (simp_all add: s3_def s2 reader_ok_def stream_def)
      have p3: "printed (stdout s3) = printed (stdout s) @ [shown l]"
        using p2 by (simp add: s3_def shown_def)
      have "\<forall>l\<in>set ls. plain_line (regex_prompt cfg) l" using Cons.prems(3) by simp
      from Cons.IH [OF ok3 st3 this Cons.prems(4)] obtain d s' m where
        c: "collect_response cfg tv s3 = (Inl (Fatal d), s')" and m: "m \<le> length ls"
        and p: "printed (stdout s') = printed (stdout s3) @ map shown (take m ls)"
        by blast
      show ?thesis
        using step c m p p3
        by (intro exI [of _ d] exI [of _ s'] exI [of _ "Suc m"]) simp
    qed
  qed
qed

lemma main_overlong:
  assumes cfg: "opt_dev cfg \<noteq> None" "words \<noteq> []" "opt_debug cfg = 0"
    and dev: "reader_ok s" "stream cfg s = e @ concat ls @ X"
    and echo: "plain_line (regex_prompt cfg) e" "strstr (strip_cr e) (joined words)"
    and resp: "\<forall>l\<in>set ls. plain_line (regex_prompt cfg) l" "overlong (regex_prompt cfg) X"
    and env: "malloc_ok s" "\<forall>len. int len \<le> write_result s len" "terminal_ok s"
      "opens s (tries s) = Open_ok fd lk" "opt_force cfg \<or> lk = Lock_ok"
    and time: "opt_timeout cfg \<le> 0
         \<or> (\<exists>t0 t1 t2. clock s (ticks s) = Some t0 \<and> clock s (ticks s + 1) = Some t1
               \<and> clock s (ticks s + 2) = Some t2
               \<and> (\<forall>i<length ls. \<exists>now. clock s (ticks s + 3 + i) = Some now
                      \<and> \<not> later now (deadline_after (opt_timeout cfg) t2)))"
  shows "\<exists>s'. main cfg words tv0 s = Some (Inl (Fatal Line_too_long), s')
           \<and> stdout s' = stdout s @ map (\<lambda>l. Printed (shown l)) ls"
proof -
  define cmd where "cmd = joined words"
  define len where "len = sum_list (map (\<lambda>w. length (cstr w) + 1) words)"
  define u :: nat where "u = (if opt_timeout cfg \<le> 0 then 0 else 1)"
  define C where "C = (if opt_force cfg then [] else [Sys_capdrop])
                        @ attempt_calls (opt_force cfg) (Open_ok fd lk)"
  have j: "join_words words s = (Inr (cmd, len), s)"
    using env(1) by (simp add: join_words_def cmd_def len_def)
  have c0: "0 < opt_timeout cfg \<longrightarrow> clock s (ticks s) \<noteq> None"
    using time by auto
  define s1 where "s1 = s\<lparr>tries := Suc (tries s), ticks := ticks s + u, calls := calls s @ C\<rparr>"
  have o: "ser_open cfg tv0 s = Some (Inr fd, s1)"
    using ser_open_first_try [OF cfg(3) env(3,4,5) c0, of tv0]
    by (simp add: s1_def u_def C_def)
  define s2 where "s2 = s1\<lparr>calls := calls s1 @ [Sys_write (take len cmd)]\<rparr>"
  have w: "sys (Sys_write (take len cmd)) (pr_debug cfg T_sending s1) = s2"
    using cfg(3) by (simp add: s2_def sys_def pr_debug_def)
  have wr: "\<not> write_result s2 len < 0" "\<not> write_result s2 len < int len"
    using env(2) [rule_format, of len] by (simp_all add: s2_def s1_def)
  define sA where "sA = s2\<lparr>ticks := ticks s2 + u\<rparr>"
  obtain tv where ti: "timeout_init cfg tv0 (pr_debug cfg T_waiting_echo s2) = (Inr tv, sA)"
  proof (cases "opt_timeout cfg \<le> 0")
    case True
    then have "timeout_init cfg tv0 (pr_debug cfg T_waiting_echo s2) = (Inr tv0, sA)"
      using cfg(3) by (simp add: timeout_init_def pr_debug_def sA_def u_def)
    then show ?thesis by (rule that)
  next
    case False
    with time obtain t1 where "clock s (ticks s + 1) = Some t1" by auto
    then have "timeout_init cfg tv0 (pr_debug cfg T_waiting_echo s2)
        = (Inr (deadline_after (opt_timeout cfg) t1), sA)"
      using cfg(3) False
      by (simp add: timeout_init_def get_time_def pr_debug_def sA_def s2_def s1_def u_def)
    then show ?thesis by (rule that)
  qed
  have A: "reader_ok sA" "stream cfg sA = e @ concat ls @ X" "clock sA = clock s"
    "ticks sA = ticks s + 2 * u" "stdout sA = stdout s"
    using dev by (simp_all add: sA_def s2_def s1_def reader_ok_def stream_def)
  have "assemble (regex_prompt cfg) [] (stream cfg sA) = V_line (strip_cr e) (concat ls @ X)"
    using assemble_plain_line [OF echo(1), of "concat ls @ X"] A(2) by simp
  from ser_readline_line [OF A(1) this] obtain sB where
    rB: "ser_readline cfg sA = (Inr (Some (strip_cr e)), sB)" and B: "reader_ok sB"
      "stream cfg sB = concat ls @ X" and tB: "touched cfg sA sB"
    by blast
  have we: "wait_echo cfg cmd tv sA = (Inr (), sB)"
    using wait_echo_found [OF rB] echo(2) by (simp add: cmd_def)
  define sC where "sC = sB\<lparr>ticks := ticks sB + u\<rparr>"
  have fB: "clock sB = clock s" "ticks sB = ticks s + 2 * u" "stdout sB = stdout s"
    using touched_fields [OF tB] touched_quiet [OF tB cfg(3)] A by simp_all
  obtain tv' where ti': "timeout_init cfg tv (pr_debug cfg T_echo_found sB) = (Inr tv', sC)"
    and dl: "0 < opt_timeout cfg \<longrightarrow>
               (\<exists>t2. clock s (ticks s + 2) = Some t2 \<and> tv' = deadline_after (opt_timeout cfg) t2)"
  proof (cases "opt_timeout cfg \<le> 0")
    case True
    then have "timeout_init cfg tv (pr_debug cfg T_echo_found sB) = (Inr tv, sC)"
      using cfg(3) by (simp add: timeout_init_def pr_debug_def sC_def u_def)
    with True show ?thesis by (intro that [of tv]) simp_all
  next
    case False
    with time obtain t2 where t2: "clock s (ticks s + 2) = Some t2" by auto
    then have "timeout_init cfg tv (pr_debug cfg T_echo_found sB)
        = (Inr (deadline_after (opt_timeout cfg) t2), sC)"
      using cfg(3) False fB
      by (simp add: timeout_init_def get_time_def pr_debug_def sC_def u_def)
    with t2 show ?thesis by (intro that [of "deadline_after (opt_timeout cfg) t2"]) simp_all
  qed
  have Cs: "reader_ok sC" "stream cfg sC = concat ls @ X" "clock sC = clock s"
    "ticks sC = ticks s + 3 * u" "stdout sC = stdout s"
    using B fB by (simp_all add: sC_def reader_ok_def stream_def)
  have it: "in_time_for cfg tv' sC (length ls)"
  proof (cases "opt_timeout cfg \<le> 0")
    case True
    then show ?thesis by (simp add: in_time_for_def)
  next
    case False
    with time dl obtain t2 where t2: "clock s (ticks s + 2) = Some t2"
      "tv' = deadline_after (opt_timeout cfg) t2"
      "\<forall>i<length ls. \<exists>now. clock s (ticks s + 3 + i) = Some now
                      \<and> \<not> later now (deadline_after (opt_timeout cfg) t2)"
      by auto
    with False Cs show ?thesis by (simp add: in_time_for_def u_def)
  qed
  from collect_response_overlong [OF Cs(1,2) resp it] cfg(3) Cs(5) obtain s' where
    cr: "collect_response cfg tv' sC = (Inl (Fatal Line_too_long), s')"
    and out: "stdout s' = stdout s @ map (\<lambda>l. Printed (shown l)) ls"
    by auto
  have "main cfg words tv0 s = Some (Inl (Fatal Line_too_long), s')"
    using cfg(1,2) j o w wr ti we ti' cr
    by (simp add: main_def Let_def)
  with out show ?thesis by simp
qed

subsection \<open>The prompt test on the bytes themselves\<close>

lemma raw_match_at_iff:
  "NUL \<notin> set line \<Longrightarrow> NUL \<notin> set (take (Suc k) S) \<Longrightarrow>
   raw_match_at rx line S = Some k \<longleftrightarrow>
     k < length S \<and> hit rx line S k \<and> (\<forall>j<k. \<not> hit rx line S j)"
proof (induction S arbitrary: line k)
  case Nil
  then show ?case by simp
next
  case (Cons c cs)
  have c: "cstr (line @ [c]) = line @ [c]"
    using Cons.prems by (intro cstr_id) simp
  show ?case
  proof (cases k)
    case 0
    then show ?thesis by (auto simp: hit_Cons_0 c)
  next
    case (Suc k')
    have n: "NUL \<notin> set (if c = CR then line else line @ [c])" "NUL \<notin> set (take (Suc k') cs)"
      using Cons.prems Suc by auto
    show ?thesis
      unfolding Suc
      by (auto simp: Cons.IH [OF n] hit_Cons_0 hit_Cons_Suc All_less_Suc2 c)
  qed
qed

lemma raw_match_first_match:
  "NUL \<notin> set (take (Suc k) S) \<Longrightarrow>
   raw_match_at (regex_prompt cfg) [] S = Some k \<longleftrightarrow> first_match cfg S k"
  by (simp add: raw_match_at_iff first_match_def)

lemma ser_readline_prompt_consumed:
  assumes "reader_ok s"
  shows "(first_match cfg (stream cfg s) k \<and> within_line (stream cfg s) k) \<longleftrightarrow>
         (\<exists>s'. ser_readline cfg s = (Inr None, s')
              \<and> length (stream cfg s') + Suc k = length (stream cfg s))"
proof
  assume a: "first_match cfg (stream cfg s) k \<and> within_line (stream cfg s) k"
  then have "k < length (stream cfg s)" by (simp add: first_match_def)
  with ser_readline_promptI [OF assms, of cfg k] a show
    "\<exists>s'. ser_readline cfg s = (Inr None, s')
              \<and> length (stream cfg s') + Suc k = length (stream cfg s)"
    by auto
next
  assume "\<exists>s'. ser_readline cfg s = (Inr None, s')
              \<and> length (stream cfg s') + Suc k = length (stream cfg s)"
  then obtain s' where r: "ser_readline cfg s = (Inr None, s')"
    and l: "length (stream cfg s') + Suc k = length (stream cfg s)" by blast
  from ser_readline_prompt_iff [OF assms, of cfg s'] r obtain j where
    j: "first_match cfg (stream cfg s) j" "within_line (stream cfg s) j"
    "stream cfg s' = drop (Suc j) (stream cfg s)" by blast
  from j(1) have "j < length (stream cfg s)" by (simp add: first_match_def)
  with j(3) l have "j = k" by simp
  with j show "first_match cfg (stream cfg s) k \<and> within_line (stream cfg s) k" by simp
qed

lemma run_of_a_no_hit:
  assumes "j < k" "\<And>i. \<not> rx (replicate (Suc i) (CHR ''a''))"
  shows "\<not> hit rx [] (replicate k (CHR ''a'') @ rest) j"
proof -
  have "take (Suc j) (replicate k (CHR ''a'') @ rest) = replicate (Suc j) (CHR ''a'')"
    using assms(1) by (simp add: min_def)
  then have "cstr (strip_cr (take (Suc j) (replicate k (CHR ''a'') @ rest)))
               = replicate (Suc j) (CHR ''a'')"
    by (simp add: strip_cr_def cstr_def CR_def NUL_def)
  with assms(2) [of j] show ?thesis by (simp add: hit_def)
qed

lemma ends_in_space_run: "\<not> ends_in_space (replicate (Suc m) (CHR ''a''))"
proof
  assume "ends_in_space (replicate (Suc m) (CHR ''a''))"
  then have "last (replicate (Suc m) (CHR ''a'')) = SPC" by (simp add: ends_in_space_def)
  moreover have "last (replicate (Suc m) (CHR ''a'')) = CHR ''a''"
    by (rule last_replicate) simp
  ultimately have "SPC = CHR ''a''" by (simp del: replicate.simps)
  then show False by (simp add: SPC_def)
qed

section \<open>The claims\<close>

text \<open>
  C1. With a timeout budget of zero or less, no operation should end the run with a timeout
  diagnostic. The deadline checks keep to this (\<open>timed_out_disabled\<close>), and so does the byte
  reader for a negative budget (\<open>ser_getc_negative_budget\<close>); for a budget of zero it does
  not: \<^verbatim>\<open>ser_getc\<close> hands the budget to \<^verbatim>\<open>poll\<close> as it is, a timeout of zero makes \<^verbatim>\<open>poll\<close>
  return at once, and when the echo arrives one millisecond after the poll, the byte
  reader, and with it the whole run, ends with the diagnostic \<open>Timeout\<close>.
\<close>

theorem zero_budget_times_out:
  "ser_getc (default_config\<lparr>opt_timeout := 0\<rparr>) (fresh [Data 1 (''reset'' @ [LF])])
     = (Inl (Fatal Timeout), fresh [Data 1 (''reset'' @ [LF])])
   \<and> map_option fst
        (main (default_config\<lparr>opt_timeout := 0\<rparr>) [''reset''] \<lparr>tv_sec = 0, tv_usec = 0\<rparr>
           (fresh [Data 1 (''reset'' @ [LF]), Data 0 (''OK'' @ [LF]), Data 0 ''> '']))
     = Some (Inl (Fatal Timeout))"
  by (simp add: run_defs world_defs)

text \<open>
  C2, as amended. Whatever the prompt pattern and the incoming bytes, \<^verbatim>\<open>ser_readline\<close>
  returns \<^verbatim>\<open>NULL\<close> (prompt reached) exactly at the first position of the line being
  assembled at which the bytes stored so far, carriage returns left out and read as a C
  string, match the pattern: when such a position comes before any newline and among the
  first \<open>LINE_SIZE - 1\<close> stored bytes, the call returns \<^verbatim>\<open>NULL\<close> having consumed the stream
  up to and including it; when the call returns \<^verbatim>\<open>NULL\<close>, it stopped at such a position;
  and no line that is returned, nor any of its non-empty prefixes, matches the pattern when
  so read. Where the bytes up to a position hold no NUL byte, reading them as a C string
  changes nothing: the call returns \<^verbatim>\<open>NULL\<close> having consumed exactly the bytes up to that
  position if and only if it is the first position at which the stored bytes themselves
  match, before any newline and within the buffer.
\<close>

theorem prompt_reached_at_first_match:
  assumes "reader_ok s"
  shows "(first_match cfg (stream cfg s) k \<and> within_line (stream cfg s) k \<longrightarrow>
            (\<exists>s'. ser_readline cfg s = (Inr None, s')
                 \<and> stream cfg s' = drop (Suc k) (stream cfg s)))
       \<and> (ser_readline cfg s = (Inr None, t) \<longrightarrow>
            (\<exists>j. first_match cfg (stream cfg s) j \<and> within_line (stream cfg s) j
                 \<and> stream cfg t = drop (Suc j) (stream cfg s)))
       \<and> (ser_readline cfg s = (Inr (Some l), u) \<and> 0 < m \<and> m \<le> length l \<longrightarrow>
            \<not> regex_prompt cfg (cstr (take m l)))
       \<and> (NUL \<notin> set (take (Suc k) (stream cfg s)) \<longrightarrow>
            ((raw_match_at (regex_prompt cfg) [] (stream cfg s) = Some k
                \<and> within_line (stream cfg s) k)
             \<longleftrightarrow> (\<exists>s'. ser_readline cfg s = (Inr None, s')
                      \<and> length (stream cfg s') + Suc k = length (stream cfg s))))"
proof (intro conjI impI)
  assume "first_match cfg (stream cfg s) k \<and> within_line (stream cfg s) k"
  then show "\<exists>s'. ser_readline cfg s = (Inr None, s')
                 \<and> stream cfg s' = drop (Suc k) (stream cfg s)"
    using ser_readline_promptI [OF assms, of cfg k] by blast
next
  assume "ser_readline cfg s = (Inr None, t)"
  then show "\<exists>j. first_match cfg (stream cfg s) j \<and> within_line (stream cfg s) j
                 \<and> stream cfg t = drop (Suc j) (stream cfg s)"
    using ser_readline_prompt_iff [OF assms, of cfg t] by blast
next
  assume "ser_readline cfg s = (Inr (Some l), u) \<and> 0 < m \<and> m \<le> length l"
  then show "\<not> regex_prompt cfg (cstr (take m l))"
    using ser_readline_line_shape [OF assms] by blast
next
  assume "NUL \<notin> set (take (Suc k) (stream cfg s))"
  then have "raw_match_at (regex_prompt cfg) [] (stream cfg s) = Some k
               \<longleftrightarrow> first_match cfg (stream cfg s) k"
    by (rule raw_match_first_match)
  then show "(raw_match_at (regex_prompt cfg) [] (stream cfg s) = Some k
                \<and> within_line (stream cfg s) k)
             \<longleftrightarrow> (\<exists>s'. ser_readline cfg s = (Inr None, s')
                      \<and> length (stream cfg s') + Suc k = length (stream cfg s))"
    using ser_readline_prompt_consumed [OF assms, of cfg k] by simp
qed

theorem prompt_reached_at_first_match_witness:
  "reader_ok (fresh [Data 0 (CR # ''> z'')])
   \<and> first_match default_config (stream default_config (fresh [Data 0 (CR # ''> z'')])) 2
   \<and> within_line (stream default_config (fresh [Data 0 (CR # ''> z'')])) 2
   \<and> (\<exists>s'. ser_readline default_config (fresh [Data 0 (CR # ''> z'')]) = (Inr None, s')
          \<and> stream default_config s' = ''z'')
   \<and> fst (ser_readline default_config (fresh [Data 0 (''ok'' @ [LF])])) = Inr (Some (''ok'' @ [LF]))
   \<and> \<not> regex_prompt default_config (cstr (take 3 (''ok'' @ [LF])))
   \<and> (\<exists>j. first_match default_config (stream default_config (fresh [Data 0 (CR # ''> z'')])) j
          \<and> stream default_config (snd (ser_readline default_config (fresh [Data 0 (CR # ''> z'')])))
              = drop (Suc j) (stream default_config (fresh [Data 0 (CR # ''> z'')])))
   \<and> NUL \<notin> set (take 3 (stream default_config (fresh [Data 0 (CR # ''> z'')])))
   \<and> raw_match_at (regex_prompt default_config) []
        (stream default_config (fresh [Data 0 (CR # ''> z'')])) = Some 2
   \<and> (\<exists>s'. ser_readline default_config (fresh [Data 0 (CR # ''> z'')]) = (Inr None, s')
          \<and> length (stream default_config s') + 3
              = length (stream default_config (fresh [Data 0 (CR # ''> z'')])))"
proof -
  let ?A = "fresh [Data 0 (CR # ''> z'')]"
  let ?B = "fresh [Data 0 (''ok'' @ [LF])]"
  have ok: "reader_ok ?A" "reader_ok ?B"
    by (simp_all add: reader_ok_def fresh_def)
  have st: "stream default_config ?A = CR # ''> z''"
    by (simp add: stream_def fresh_def default_config_def DEFAULT_TIMEOUT_MS_def)
  have fm: "first_match default_config (CR # ''> z'') 2"
    by (simp add: first_match_def hit_def strip_cr_def cstr_def world_defs numeral_2_eq_2
          All_less_Suc)
  have wl: "within_line (CR # ''> z'') 2"
    by (simp add: within_line_def strip_cr_def world_defs numeral_2_eq_2 numeral_3_eq_3)
  have b: "fst (ser_readline default_config ?B) = Inr (Some (''ok'' @ [LF]))"
    by (simp add: run_defs world_defs)
  then obtain t where bt: "ser_readline default_config ?B = (Inr (Some (''ok'' @ [LF])), t)"
    by (cases "ser_readline default_config ?B") simp
  have 1: "\<exists>s'. ser_readline default_config ?A = (Inr None, s')
          \<and> stream default_config s' = ''z''"
    using prompt_reached_at_first_match [OF ok(1), where cfg = default_config and k = 2,
            THEN conjunct1] fm wl st
    by (simp add: numeral_3_eq_3)
  have 2: "\<not> regex_prompt default_config (cstr (take 3 (''ok'' @ [LF])))"
    using prompt_reached_at_first_match [OF ok(2), where cfg = default_config
            and l = "''ok'' @ [LF]" and u = t and m = 3,
            THEN conjunct2, THEN conjunct2, THEN conjunct1] bt
    by simp
  from 1 obtain s' where a: "ser_readline default_config ?A = (Inr None, s')" by blast
  have 3: "\<exists>j. first_match default_config (stream default_config ?A) j
          \<and> stream default_config (snd (ser_readline default_config ?A))
              = drop (Suc j) (stream default_config ?A)"
    using prompt_reached_at_first_match [OF ok(1), where cfg = default_config and t = s',
            THEN conjunct2, THEN conjunct1] a
    by auto
  have nn: "NUL \<notin> set (take 3 (CR # ''> z''))"
    by (simp add: world_defs numeral_3_eq_3)
  have rm: "raw_match_at (regex_prompt default_config) [] (CR # ''> z'') = Some 2"
    by (simp add: world_defs)
  have 4: "\<exists>s'. ser_readline default_config ?A = (Inr None, s')
          \<and> length (stream default_config s') + 3 = length (stream default_config ?A)"
    using prompt_reached_at_first_match [OF ok(1), where cfg = default_config and k = 2,
            THEN conjunct2, THEN conjunct2, THEN conjunct2] nn rm wl st
    by (simp add: numeral_3_eq_3)
  show ?thesis using ok st fm wl b 1 2 3 nn rm 4 by simp
qed

text \<open>
  C2 as it is stated, for the stored bytes themselves, does not hold. With the pattern
  \<^verbatim>\<open>" $"\<close>: when the device sends a NUL byte, then \<open>> \<close> and a newline, the stored bytes
  match first at the third byte, yet \<^verbatim>\<open>regexec\<close> sees an empty C string at every byte, the
  prompt is never reported, and the bytes come back to the caller as a completed line
  (without the newline the call waits for more and ends the run with \<open>Timeout\<close>). And when
  the first match is at the 1024th stored byte of a line, the run ends with
  \<open>Line_too_long\<close> before that byte is tested.
\<close>

theorem prompt_match_raw_counterexample:
  "stream (default_config\<lparr>regex_prompt := ends_in_space\<rparr>) (fresh [Data 0 (NUL # ''> '' @ [LF])])
     = NUL # ''> '' @ [LF]
   \<and> ends_in_space (strip_cr (take 3 (NUL # ''> '' @ [LF])))
   \<and> raw_match_at ends_in_space [] (NUL # ''> '' @ [LF]) = Some 2
   \<and> fst (ser_readline (default_config\<lparr>regex_prompt := ends_in_space\<rparr>)
            (fresh [Data 0 (NUL # ''> '' @ [LF])]))
       = Inr (Some (NUL # ''> '' @ [LF]))
   \<and> raw_match_at ends_in_space [] (NUL # ''> '') = Some 2
   \<and> fst (ser_readline (default_config\<lparr>regex_prompt := ends_in_space\<rparr>)
            (fresh [Data 0 (NUL # ''> '')]))
       = Inl (Fatal Timeout)
   \<and> raw_match_at ends_in_space [] (replicate 1023 (CHR ''a'') @ '' '') = Some 1023
   \<and> fst (ser_readline (default_config\<lparr>regex_prompt := ends_in_space\<rparr>)
            (fresh [Data 0 (replicate 1023 (CHR ''a'') @ '' '')]))
       = Inl (Fatal Line_too_long)"
proof -
  let ?c = "default_config\<lparr>regex_prompt := ends_in_space\<rparr>"
  let ?S = "replicate 1023 (CHR ''a'') @ '' ''"
  let ?s = "fresh [Data 0 ?S]"
  have 1: "stream ?c (fresh [Data 0 (NUL # ''> '' @ [LF])]) = NUL # ''> '' @ [LF]"
    by (simp add: stream_def world_defs)
  have 2: "ends_in_space (strip_cr (take 3 (NUL # ''> '' @ [LF])))"
    by (simp add: ends_in_space_def strip_cr_def world_defs numeral_3_eq_3)
  have 3: "raw_match_at ends_in_space [] (NUL # ''> '' @ [LF]) = Some 2"
    "raw_match_at ends_in_space [] (NUL # ''> '') = Some 2"
    by (simp_all add: ends_in_space_def world_defs)
  have 4: "fst (ser_readline ?c (fresh [Data 0 (NUL # ''> '' @ [LF])]))
             = Inr (Some (NUL # ''> '' @ [LF]))"
    by (simp add: run_defs world_defs ends_in_space_def)
  have 5: "fst (ser_readline ?c (fresh [Data 0 (NUL # ''> '')])) = Inl (Fatal Timeout)"
    by (simp add: run_defs world_defs ends_in_space_def)
  have no: "\<forall>j<1023. \<not> hit ends_in_space [] ?S j"
    using run_of_a_no_hit [of _ 1023 ends_in_space "'' ''"] ends_in_space_run by blast
  have n: "NUL \<notin> set []" "NUL \<notin> set (take (Suc 1023) ?S)"
    by (simp_all add: NUL_def)
  have "strip_cr (take (Suc 1023) ?S) = ?S"
    by (simp add: strip_cr_def CR_def)
  moreover have "cstr ?S = ?S"
    by (rule cstr_id) (simp add: NUL_def)
  ultimately have "hit ends_in_space [] ?S 1023"
    by (simp add: hit_def ends_in_space_def nth_append CR_def SPC_def)
  with no have 6: "raw_match_at ends_in_space [] ?S = Some 1023"
    unfolding raw_match_at_iff [OF n] by simp
  have ok: "reader_ok ?s" by (simp add: reader_ok_def fresh_def)
  have st: "stream ?c ?s = ?S"
    by (simp add: stream_def fresh_def default_config_def DEFAULT_TIMEOUT_MS_def)
  have "?S ! 1023 \<noteq> CR" by (simp add: nth_append CR_def)
  moreover have "length (strip_cr (take 1023 ?S)) = LINE_SIZE - 1"
    by (simp add: strip_cr_def CR_def LINE_SIZE_def)
  moreover have "LF \<notin> set (take 1023 ?S)" by (simp add: LF_def)
  ultimately have "overlong (regex_prompt ?c) (stream ?c ?s)"
    unfolding st overlong_def using no by (intro exI [of _ 1023]) simp
  from ser_readline_too_long [OF ok this]
  have 7: "fst (ser_readline ?c ?s) = Inl (Fatal Line_too_long)" by auto
  show ?thesis using 1 2 3 4 5 6 7 by simp
qed

text \<open>
  C3. The run with the command word \<open>reset\<close>, without debugging and with the default prompt
  pattern, against a device that delivers exactly the echo \<open>reset\<close> and newline, then
  \<open>OK\<close> and newline, then a prompt \<open>p\<close> matching the default pattern (short enough for the
  line buffer), ends with \<^verbatim>\<open>exit(0)\<close> and has printed exactly \<open>OK\<close> and newline on standard
  output. The world cooperates: the allocation, the open at its first attempt, the terminal
  setup and the write succeed, and the clock has not passed the response deadline when the
  line \<open>OK\<close> is checked.
\<close>

theorem round_trip_reset:
  assumes cfg: "opt_dev cfg \<noteq> None" "opt_debug cfg = 0" "regex_prompt cfg = default_prompt"
    and dev: "reader_ok s" "stream cfg s = ''reset'' @ [LF] @ ''OK'' @ [LF] @ p"
    and p: "default_prompt p" "length p < LINE_SIZE"
    and env: "malloc_ok s" "6 \<le> write_result s 6" "terminal_ok s"
      "opens s (tries s) = Open_ok fd lk" "opt_force cfg \<or> lk = Lock_ok"
    and time: "opt_timeout cfg \<le> 0
         \<or> (\<exists>t0 t1 t2 t3. clock s (ticks s) = Some t0 \<and> clock s (ticks s + 1) = Some t1
               \<and> clock s (ticks s + 2) = Some t2 \<and> clock s (ticks s + 3) = Some t3
               \<and> \<not> later t3 (deadline_after (opt_timeout cfg) t2))"
    and out: "stdout s = []"
  shows "\<exists>s'. main cfg [''reset''] tv0 s = Some (Inr (), s')
           \<and> exit_status (Inr ()) = Some 0
           \<and> stdout s' = [Printed (''OK'' @ [LF])]"
proof -
  let ?cmd = "''reset'' @ [LF]"
  define u :: nat where "u = (if opt_timeout cfg \<le> 0 then 0 else 1)"
  define C where "C = (if opt_force cfg then [] else [Sys_capdrop])
                        @ attempt_calls (opt_force cfg) (Open_ok fd lk)"
  have j: "join_words [''reset''] s = (Inr (?cmd, 6), s)"
    using env(1) by (simp add: join_words_def joined_def cstr_def NUL_def)
  have c0: "0 < opt_timeout cfg \<longrightarrow> clock s (ticks s) \<noteq> None"
    using time by auto
  define s1 where "s1 = s\<lparr>tries := Suc (tries s), ticks := ticks s + u, calls := calls s @ C\<rparr>"
  have o: "ser_open cfg tv0 s = Some (Inr fd, s1)"
    using ser_open_first_try [OF cfg(2) env(3,4,5) c0, of tv0]
    by (simp add: s1_def u_def C_def)
  define s2 where "s2 = s1\<lparr>calls := calls s1 @ [Sys_write ?cmd]\<rparr>"
  have w: "sys (Sys_write (take 6 ?cmd)) (pr_debug cfg T_sending s1) = s2"
    using cfg(2) by (simp add: s2_def sys_def pr_debug_def)
  have wr: "\<not> write_result s2 6 < 0" "\<not> write_result s2 6 < int 6"
    using env(2) by (simp_all add: s2_def s1_def)
  define sA where "sA = s2\<lparr>ticks := ticks s2 + u\<rparr>"
  obtain tv where ti: "timeout_init cfg tv0 (pr_debug cfg T_waiting_echo s2) = (Inr tv, sA)"
  proof (cases "opt_timeout cfg \<le> 0")
    case True
    then have "timeout_init cfg tv0 (pr_debug cfg T_waiting_echo s2) = (Inr tv0, sA)"
      using cfg(2) by (simp add: timeout_init_def pr_debug_def sA_def u_def)
    then show ?thesis by (rule that)
  next
    case False
    with time obtain t1 where "clock s (ticks s + 1) = Some t1" by auto
    then have "timeout_init cfg tv0 (pr_debug cfg T_waiting_echo s2)
        = (Inr (deadline_after (opt_timeout cfg) t1), sA)"
      using cfg(2) False
      by (simp add: timeout_init_def get_time_def pr_debug_def sA_def s2_def s1_def u_def)
    then show ?thesis by (rule that)
  qed
  have A: "reader_ok sA" "stream cfg sA = ?cmd @ ''OK'' @ [LF] @ p" "clock sA = clock s"
    "ticks sA = ticks s + 2 * u" "stdout sA = []"
    using dev out by (simp_all add: sA_def s2_def s1_def reader_ok_def stream_def)
  have "assemble (regex_prompt cfg) [] (stream cfg sA) = V_line ?cmd (''OK'' @ [LF] @ p)"
    using assemble_reset_line [of "''OK'' @ [LF] @ p"] A(2) cfg(3) by simp
  from ser_readline_line [OF A(1) this] obtain sB where
    rB: "ser_readline cfg sA = (Inr (Some ?cmd), sB)" and B: "reader_ok sB"
      "stream cfg sB = ''OK'' @ [LF] @ p" and tB: "touched cfg sA sB"
    by blast
  have st: "strstr ?cmd ?cmd"
    by (simp add: strstr_def cstr_def world_defs)
  have we: "wait_echo cfg ?cmd tv sA = (Inr (), sB)"
    by (rule wait_echo_found [OF rB st])
  define sC where "sC = sB\<lparr>ticks := ticks sB + u\<rparr>"
  have fB: "clock sB = clock s" "ticks sB = ticks s + 2 * u" "stdout sB = []"
    using touched_fields [OF tB] touched_quiet [OF tB cfg(2)] A by simp_all
  obtain tv' where ti': "timeout_init cfg tv (pr_debug cfg T_echo_found sB) = (Inr tv', sC)"
    and dl: "0 < opt_timeout cfg \<longrightarrow>
               (\<exists>t2. clock s (ticks s + 2) = Some t2 \<and> tv' = deadline_after (opt_timeout cfg) t2)"
  proof (cases "opt_timeout cfg \<le> 0")
    case True
    then have "timeout_init cfg tv (pr_debug cfg T_echo_found sB) = (Inr tv, sC)"
      using cfg(2) by (simp add: timeout_init_def pr_debug_def sC_def u_def)
    with True show ?thesis by (intro that [of tv]) simp_all
  next
    case False
    with time obtain t2 where t2: "clock s (ticks s + 2) = Some t2" by auto
    then have "timeout_init cfg tv (pr_debug cfg T_echo_found sB)
        = (Inr (deadline_after (opt_timeout cfg) t2), sC)"
      using cfg(2) False fB
      by (simp add: timeout_init_def get_time_def pr_debug_def sC_def u_def)
    with t2 show ?thesis by (intro that [of "deadline_after (opt_timeout cfg) t2"]) simp_all
  qed
  have Cs: "reader_ok sC" "stream cfg sC = ''OK'' @ [LF] @ p" "clock sC = clock s"
    "ticks sC = ticks s + 3 * u" "stdout sC = []"
    using B fB by (simp_all add: sC_def reader_ok_def stream_def)
  have "assemble (regex_prompt cfg) [] (stream cfg sC) = V_line (''OK'' @ [LF]) p"
    using assemble_OK_line [of p] Cs(2) cfg(3) by simp
  from ser_readline_line [OF Cs(1) this] obtain sD where
    rD: "ser_readline cfg sC = (Inr (Some (''OK'' @ [LF])), sD)" and D: "reader_ok sD"
      "stream cfg sD = p" and tD: "touched cfg sC sD"
    by blast
  have fD: "clock sD = clock s" "ticks sD = ticks s + 3 * u" "stdout sD = []"
    using touched_fields [OF tD] touched_quiet [OF tD cfg(2)] Cs by simp_all
  define sE where "sE = sD\<lparr>ticks := ticks sD + u\<rparr>"
  have to: "timed_out cfg tv' sD = (Inr False, sE)"
  proof (cases "opt_timeout cfg \<le> 0")
    case True
    then show ?thesis by (simp add: timed_out_def sE_def u_def)
  next
    case False
    with time dl obtain t2 t3 where "clock s (ticks s + 2) = Some t2"
      "tv' = deadline_after (opt_timeout cfg) t2" "clock s (ticks s + 3) = Some t3"
      "\<not> later t3 (deadline_after (opt_timeout cfg) t2)"
      by auto
    with False fD show ?thesis
      by (simp add: timed_out_def get_time_def sE_def u_def)
  qed
  define sF where "sF = sE\<lparr>stdout := stdout sE @ [Printed (cstr (''OK'' @ [LF]))]\<rparr>"
  have F: "reader_ok sF" "stream cfg sF = p" "stdout sF = [Printed (''OK'' @ [LF])]"
    using D fD by (simp_all add: sF_def sE_def reader_ok_def stream_def cstr_def world_defs)
  have "assemble (regex_prompt cfg) [] (stream cfg sF) = V_prompt []"
    using assemble_default_prompt [OF p] F(2) cfg(3) by simp
  from ser_readline_prompt [OF F(1) this] obtain sG where
    rG: "ser_readline cfg sF = (Inr None, sG)" and tG: "touched cfg sF sG"
    by blast
  have G: "stdout sG = [Printed (''OK'' @ [LF])]"
    using touched_quiet [OF tG cfg(2)] F(3) by simp
  have "collect_response cfg tv' sF = (Inr (), sG)"
    using rG by (simp add: collect_response.simps [of cfg tv' sF])
  then have cr: "collect_response cfg tv' sC = (Inr (), sG)"
    using rD to by (simp add: collect_response.simps [of cfg tv' sC] sF_def)
  have ef: "pr_debug cfg T_echo_found sB = sB" "pr_debug cfg T_waiting_echo s2 = s2"
    using cfg(2) by (simp_all add: pr_debug_def)
  have "main cfg [''reset''] tv0 s = Some (Inr (), sys Sys_close sG)"
    using cfg(1) j o w wr ti we ti' cr
    by (simp add: main_def Let_def)
  moreover have "stdout (sys Sys_close sG) = [Printed (''OK'' @ [LF])]"
    using G by (simp add: sys_def)
  ultimately show ?thesis by simp
qed

theorem round_trip_reset_witness:
  "stream default_config
       (fresh [Data 0 (''reset'' @ [LF]), Data 0 (''OK'' @ [LF]), Data 0 ''> ''])
     = ''reset'' @ [LF] @ ''OK'' @ [LF] @ ''> ''
   \<and> default_prompt ''> ''
   \<and> (\<exists>s'. main default_config [''reset''] \<lparr>tv_sec = 0, tv_usec = 0\<rparr>
            (fresh [Data 0 (''reset'' @ [LF]), Data 0 (''OK'' @ [LF]), Data 0 ''> ''])
          = Some (Inr (), s')
        \<and> stdout s' = [Printed (''OK'' @ [LF])])"
proof -
  let ?s = "fresh [Data 0 (''reset'' @ [LF]), Data 0 (''OK'' @ [LF]), Data 0 ''> '']"
  have cfg: "opt_dev default_config \<noteq> None" "opt_debug default_config = 0"
    "regex_prompt default_config = default_prompt" "opt_force default_config \<or> Lock_ok = Lock_ok"
    by (simp_all add: default_config_def)
  have dev: "reader_ok ?s"
    "stream default_config ?s = ''reset'' @ [LF] @ ''OK'' @ [LF] @ ''> ''"
    by (simp_all add: reader_ok_def stream_def world_defs)
  have p: "default_prompt ''> ''" "length ''> '' < LINE_SIZE"
    by (simp_all add: world_defs)
  have env: "malloc_ok ?s" "6 \<le> write_result ?s 6" "terminal_ok ?s"
    "opens ?s (tries ?s) = Open_ok 3 Lock_ok" "stdout ?s = []"
    by (simp_all add: fresh_def terminal_ok_def)
  have d: "deadline_after 2000 \<lparr>tv_sec = 0, tv_usec = 0\<rparr> = \<lparr>tv_sec = 2, tv_usec = 0\<rparr>"
    by (simp add: deadline_after_def int32_def div_quot_def div_rem_def)
  have time: "opt_timeout default_config \<le> 0
         \<or> (\<exists>t0 t1 t2 t3. clock ?s (ticks ?s) = Some t0 \<and> clock ?s (ticks ?s + 1) = Some t1
               \<and> clock ?s (ticks ?s + 2) = Some t2 \<and> clock ?s (ticks ?s + 3) = Some t3
               \<and> \<not> later t3 (deadline_after (opt_timeout default_config) t2))"
    by (simp add: later_def d world_defs)
  have "\<exists>s'. main default_config [''reset''] \<lparr>tv_sec = 0, tv_usec = 0\<rparr> ?s = Some (Inr (), s')
        \<and> exit_status (Inr ()) = Some 0
        \<and> stdout s' = [Printed (''OK'' @ [LF])]"
    by (rule round_trip_reset [OF cfg(1-3) dev p env(1-4) cfg(4) time env(5)])
  with dev(2) p(1) show ?thesis by blast
qed

text \<open>
  C4. A line is too long when a byte to be stored arrives after \<open>LINE_SIZE - 1\<close> bytes have
  been stored (carriage returns are not stored) without a newline or a prompt match: then
  \<^verbatim>\<open>ser_readline\<close> stops the run with the diagnostic \<open>Line_too_long\<close> and exit status \<open>-1\<close>,
  in the echo loop and in the response loop alike, and no response line is printed on the
  way (without debugging, standard output is untouched). A line whose stored bytes,
  newline included, number at most \<open>LINE_SIZE - 1\<close> is returned whole.

  So it is for every response that holds such a line, whatever lines \<open>ls\<close> come before it
  (lines that fit, none of them reaching the prompt): the response loop never ends with
  success; it ends the run with a diagnostic and exit status \<open>-1\<close>, having printed lines of
  \<open>ls\<close> only, in their order, and nothing of the line too long. When the deadline has not
  passed at the check that follows each line of \<open>ls\<close>, the diagnostic is \<open>Line_too_long\<close>
  and all of \<open>ls\<close> has been printed. And so does the whole run of \<^verbatim>\<open>main\<close> end, without
  debugging, when the device sends the echo of the command, the lines \<open>ls\<close> and then the
  line too long, in a world where the allocation, the open at its first attempt, the
  terminal setup and the write succeed.
\<close>

theorem overlong_line_is_fatal:
  assumes "reader_ok s"
  shows "(k < length (stream cfg s) \<and> stream cfg s ! k \<noteq> CR
            \<and> length (strip_cr (take k (stream cfg s))) = LINE_SIZE - 1
            \<and> LF \<notin> set (take k (stream cfg s))
            \<and> (\<forall>j<k. \<not> hit (regex_prompt cfg) [] (stream cfg s) j) \<longrightarrow>
          (\<exists>s'. ser_readline cfg s = (Inl (Fatal Line_too_long), s')
               \<and> wait_echo cfg cmd tv s = (Inl (Fatal Line_too_long), s')
               \<and> collect_response cfg tv s = (Inl (Fatal Line_too_long), s')
               \<and> exit_status (Inl (Fatal Line_too_long)) = Some (- 1)
               \<and> printed (stdout s') = printed (stdout s)
               \<and> (opt_debug cfg = 0 \<longrightarrow> stdout s' = stdout s)))
       \<and> (i < length (stream cfg s) \<and> stream cfg s ! i = LF
            \<and> LF \<notin> set (take i (stream cfg s))
            \<and> (\<forall>j<Suc i. \<not> hit (regex_prompt cfg) [] (stream cfg s) j)
            \<and> length (strip_cr (take (Suc i) (stream cfg s))) \<le> LINE_SIZE - 1 \<longrightarrow>
          (\<exists>s'. ser_readline cfg s = (Inr (Some (strip_cr (take (Suc i) (stream cfg s)))), s')))
       \<and> (stream cfg s = concat ls @ X \<and> (\<forall>l\<in>set ls. plain_line (regex_prompt cfg) l)
            \<and> overlong (regex_prompt cfg) X \<longrightarrow>
          (\<exists>d s' m. collect_response cfg tv s = (Inl (Fatal d), s')
               \<and> exit_status (Inl (Fatal d)) = Some (- 1)
               \<and> m \<le> length ls
               \<and> printed (stdout s') = printed (stdout s) @ map shown (take m ls))
          \<and> (in_time_for cfg tv s (length ls) \<longrightarrow>
              (\<exists>s'. collect_response cfg tv s = (Inl (Fatal Line_too_long), s')
                   \<and> printed (stdout s') = printed (stdout s) @ map shown ls
                   \<and> (opt_debug cfg = 0 \<longrightarrow>
                        stdout s' = stdout s @ map (\<lambda>l. Printed (shown l)) ls))))
       \<and> (opt_dev cfg \<noteq> None \<and> words \<noteq> [] \<and> opt_debug cfg = 0
            \<and> stream cfg s = e @ concat ls @ X
            \<and> plain_line (regex_prompt cfg) e \<and> strstr (strip_cr e) (joined words)
            \<and> (\<forall>l\<in>set ls. plain_line (regex_prompt cfg) l) \<and> overlong (regex_prompt cfg) X
            \<and> malloc_ok s \<and> (\<forall>len. int len \<le> write_result s len) \<and> terminal_ok s
            \<and> opens s (tries s) = Open_ok fd lk \<and> (opt_force cfg \<or> lk = Lock_ok)
            \<and> (opt_timeout cfg \<le> 0
                 \<or> (\<exists>t0 t1 t2. clock s (ticks s) = Some t0 \<and> clock s (ticks s + 1) = Some t1
                       \<and> clock s (ticks s + 2) = Some t2
                       \<and> (\<forall>i<length ls. \<exists>now. clock s (ticks s + 3 + i) = Some now
                              \<and> \<not> later now (deadline_after (opt_timeout cfg) t2)))) \<longrightarrow>
          (\<exists>s'. main cfg words tv0 s = Some (Inl (Fatal Line_too_long), s')
               \<and> exit_status (Inl (Fatal Line_too_long)) = Some (- 1)
               \<and> stdout s' = stdout s @ map (\<lambda>l. Printed (shown l)) ls))"
proof -
  have 1: "k < length (stream cfg s) \<and> stream cfg s ! k \<noteq> CR
            \<and> length (strip_cr (take k (stream cfg s))) = LINE_SIZE - 1
            \<and> LF \<notin> set (take k (stream cfg s))
            \<and> (\<forall>j<k. \<not> hit (regex_prompt cfg) [] (stream cfg s) j) \<longrightarrow>
          (\<exists>s'. ser_readline cfg s = (Inl (Fatal Line_too_long), s')
               \<and> wait_echo cfg cmd tv s = (Inl (Fatal Line_too_long), s')
               \<and> collect_response cfg tv s = (Inl (Fatal Line_too_long), s')
               \<and> exit_status (Inl (Fatal Line_too_long)) = Some (- 1)
               \<and> printed (stdout s') = printed (stdout s)
               \<and> (opt_debug cfg = 0 \<longrightarrow> stdout s' = stdout s))"
  proof
    assume h: "k < length (stream cfg s) \<and> stream cfg s ! k \<noteq> CR
            \<and> length (strip_cr (take k (stream cfg s))) = LINE_SIZE - 1
            \<and> LF \<notin> set (take k (stream cfg s))
            \<and> (\<forall>j<k. \<not> hit (regex_prompt cfg) [] (stream cfg s) j)"
    obtain x s' where r: "ser_readline cfg s = (x, s')" by (cases "ser_readline cfg s")
    have y: "yields cfg s (x, s') (assemble (regex_prompt cfg) [] (stream cfg s))"
      using ser_readline_yields [OF assms, of cfg] r by simp
    have "assemble (regex_prompt cfg) [] (stream cfg s) = V_too_long"
      unfolding assemble_too_long_iff using h by auto
    with y have x: "x = Inl (Fatal Line_too_long)" and to: "touched cfg s s'"
      by simp_all
    have rl: "ser_readline cfg s = (Inl (Fatal Line_too_long), s')"
      using r x by simp
    show "\<exists>s'. ser_readline cfg s = (Inl (Fatal Line_too_long), s')
               \<and> wait_echo cfg cmd tv s = (Inl (Fatal Line_too_long), s')
               \<and> collect_response cfg tv s = (Inl (Fatal Line_too_long), s')
               \<and> exit_status (Inl (Fatal Line_too_long)) = Some (- 1)
               \<and> printed (stdout s') = printed (stdout s)
               \<and> (opt_debug cfg = 0 \<longrightarrow> stdout s' = stdout s)"
      using rl to wait_echo_stops [OF rl] collect_response_stops [OF rl]
      by (intro exI [of _ s']) (simp add: touched_def)
  qed
  have 2: "i < length (stream cfg s) \<and> stream cfg s ! i = LF
            \<and> LF \<notin> set (take i (stream cfg s))
            \<and> (\<forall>j<Suc i. \<not> hit (regex_prompt cfg) [] (stream cfg s) j)
            \<and> length (strip_cr (take (Suc i) (stream cfg s))) \<le> LINE_SIZE - 1 \<longrightarrow>
          (\<exists>s'. ser_readline cfg s = (Inr (Some (strip_cr (take (Suc i) (stream cfg s)))), s'))"
  proof
    assume h: "i < length (stream cfg s) \<and> stream cfg s ! i = LF
            \<and> LF \<notin> set (take i (stream cfg s))
            \<and> (\<forall>j<Suc i. \<not> hit (regex_prompt cfg) [] (stream cfg s) j)
            \<and> length (strip_cr (take (Suc i) (stream cfg s))) \<le> LINE_SIZE - 1"
    obtain x s' where r: "ser_readline cfg s = (x, s')" by (cases "ser_readline cfg s")
    have y: "yields cfg s (x, s') (assemble (regex_prompt cfg) [] (stream cfg s))"
      using ser_readline_yields [OF assms, of cfg] r by simp
    have "assemble (regex_prompt cfg) [] (stream cfg s)
            = V_line (strip_cr (take (Suc i) (stream cfg s))) (drop (Suc i) (stream cfg s))"
      unfolding assemble_line_iff using h by (auto simp: LINE_SIZE_def)
    with y r show "\<exists>s'. ser_readline cfg s
                       = (Inr (Some (strip_cr (take (Suc i) (stream cfg s)))), s')"
      by simp
  qed
  have 3: "stream cfg s = concat ls @ X \<and> (\<forall>l\<in>set ls. plain_line (regex_prompt cfg) l)
            \<and> overlong (regex_prompt cfg) X \<longrightarrow>
          (\<exists>d s' m. collect_response cfg tv s = (Inl (Fatal d), s')
               \<and> exit_status (Inl (Fatal d)) = Some (- 1)
               \<and> m \<le> length ls
               \<and> printed (stdout s') = printed (stdout s) @ map shown (take m ls))
          \<and> (in_time_for cfg tv s (length ls) \<longrightarrow>
              (\<exists>s'. collect_response cfg tv s = (Inl (Fatal Line_too_long), s')
                   \<and> printed (stdout s') = printed (stdout s) @ map shown ls
                   \<and> (opt_debug cfg = 0 \<longrightarrow>
                        stdout s' = stdout s @ map (\<lambda>l. Printed (shown l)) ls)))"
  proof
    assume "stream cfg s = concat ls @ X \<and> (\<forall>l\<in>set ls. plain_line (regex_prompt cfg) l)
            \<and> overlong (regex_prompt cfg) X"
    then have h: "stream cfg s = concat ls @ X" "\<forall>l\<in>set ls. plain_line (regex_prompt cfg) l"
      "overlong (regex_prompt cfg) X" by simp_all
    have a: "\<exists>d s' m. collect_response cfg tv s = (Inl (Fatal d), s')
               \<and> exit_status (Inl (Fatal d)) = Some (- 1)
               \<and> m \<le> length ls
               \<and> printed (stdout s') = printed (stdout s) @ map shown (take m ls)"
      using collect_response_overlong_fatal [OF assms h, of tv] by simp
    have b: "in_time_for cfg tv s (length ls) \<longrightarrow>
              (\<exists>s'. collect_response cfg tv s = (Inl (Fatal Line_too_long), s')
                   \<and> printed (stdout s') = printed (stdout s) @ map shown ls
                   \<and> (opt_debug cfg = 0 \<longrightarrow>
                        stdout s' = stdout s @ map (\<lambda>l. Printed (shown l)) ls))"
      using collect_response_overlong [OF assms h] by blast
    from a b show "(\<exists>d s' m. collect_response cfg tv s = (Inl (Fatal d), s')
               \<and> exit_status (Inl (Fatal d)) = Some (- 1)
               \<and> m \<le> length ls
               \<and> printed (stdout s') = printed (stdout s) @ map shown (take m ls))
          \<and> (in_time_for cfg tv s (length ls) \<longrightarrow>
              (\<exists>s'. collect_response cfg tv s = (Inl (Fatal Line_too_long), s')
                   \<and> printed (stdout s') = printed (stdout s) @ map shown ls
                   \<and> (opt_debug cfg = 0 \<longrightarrow>
                        stdout s' = stdout s @ map (\<lambda>l. Printed (shown l)) ls)))"
      by (rule conjI)
  qed
  have 4: "opt_dev cfg \<noteq> None \<and> words \<noteq> [] \<and> opt_debug cfg = 0
            \<and> stream cfg s = e @ concat ls @ X
            \<and> plain_line (regex_prompt cfg) e \<and> strstr (strip_cr e) (joined words)
            \<and> (\<forall>l\<in>set ls. plain_line (regex_prompt cfg) l) \<and> overlong (regex_prompt cfg) X
            \<and> malloc_ok s \<and> (\<forall>len. int len \<le> write_result s len) \<and> terminal_ok s
            \<and> opens s (tries s) = Open_ok fd lk \<and> (opt_force cfg \<or> lk = Lock_ok)
            \<and> (opt_timeout cfg \<le> 0
                 \<or> (\<exists>t0 t1 t2. clock s (ticks s) = Some t0 \<and> clock s (ticks s + 1) = Some t1
                       \<and> clock s (ticks s + 2) = Some t2
                       \<and> (\<forall>i<length ls. \<exists>now. clock s (ticks s + 3 + i) = Some now
                              \<and> \<not> later now (deadline_after (opt_timeout cfg) t2)))) \<longrightarrow>
          (\<exists>s'. main cfg words tv0 s = Some (Inl (Fatal Line_too_long), s')
               \<and> exit_status (Inl (Fatal Line_too_long)) = Some (- 1)
               \<and> stdout s' = stdout s @ map (\<lambda>l. Printed (shown l)) ls)"
  proof
    assume h: "opt_dev cfg \<noteq> None \<and> words \<noteq> [] \<and> opt_debug cfg = 0
            \<and> stream cfg s = e @ concat ls @ X
            \<and> plain_line (regex_prompt cfg) e \<and> strstr (strip_cr e) (joined words)
            \<and> (\<forall>l\<in>set ls. plain_line (regex_prompt cfg) l) \<and> overlong (regex_prompt cfg) X
            \<and> malloc_ok s \<and> (\<forall>len. int len \<le> write_result s len) \<and> terminal_ok s
            \<and> opens s (tries s) = Open_ok fd lk \<and> (opt_force cfg \<or> lk = Lock_ok)
            \<and> (opt_timeout cfg \<le> 0
                 \<or> (\<exists>t0 t1 t2. clock s (ticks s) = Some t0 \<and> clock s (ticks s + 1) = Some t1
                       \<and> clock s (ticks s + 2) = Some t2
                       \<and> (\<forall>i<length ls. \<exists>now. clock s (ticks s + 3 + i) = Some now
                              \<and> \<not> later now (deadline_after (opt_timeout cfg) t2))))"
    then have a: "opt_dev cfg \<noteq> None" "words \<noteq> []" "opt_debug cfg = 0"
      and b: "stream cfg s = e @ concat ls @ X"
      and c: "plain_line (regex_prompt cfg) e" "strstr (strip_cr e) (joined words)"
        "\<forall>l\<in>set ls. plain_line (regex_prompt cfg) l" "overlong (regex_prompt cfg) X"
      and d: "malloc_ok s" "\<forall>len. int len \<le> write_result s len" "terminal_ok s"
        "opens s (tries s) = Open_ok fd lk" "opt_force cfg \<or> lk = Lock_ok"
      by simp_all
    from h have ti: "opt_timeout cfg \<le> 0
                 \<or> (\<exists>t0 t1 t2. clock s (ticks s) = Some t0 \<and> clock s (ticks s + 1) = Some t1
                       \<and> clock s (ticks s + 2) = Some t2
                       \<and> (\<forall>i<length ls. \<exists>now. clock s (ticks s + 3 + i) = Some now
                              \<and> \<not> later now (deadline_after (opt_timeout cfg) t2)))"
      by blast
    have "\<exists>s'. main cfg words tv0 s = Some (Inl (Fatal Line_too_long), s')
           \<and> stdout s' = stdout s @ map (\<lambda>l. Printed (shown l)) ls"
      by (rule main_overlong [OF a assms b c d ti])
    then show "\<exists>s'. main cfg words tv0 s = Some (Inl (Fatal Line_too_long), s')
               \<and> exit_status (Inl (Fatal Line_too_long)) = Some (- 1)
               \<and> stdout s' = stdout s @ map (\<lambda>l. Printed (shown l)) ls"
      by simp
  qed
  show ?thesis
    by (rule conjI [OF 1 conjI [OF 2 conjI [OF 3 4]]])
qed

theorem overlong_line_is_fatal_witness:
  "reader_ok (fresh [Data 0 (replicate 1024 (CHR ''a''))])
   \<and> 1023 < length (stream default_config (fresh [Data 0 (replicate 1024 (CHR ''a''))]))
   \<and> stream default_config (fresh [Data 0 (replicate 1024 (CHR ''a''))]) ! 1023 \<noteq> CR
   \<and> length (strip_cr (take 1023 (stream default_config
         (fresh [Data 0 (replicate 1024 (CHR ''a''))])))) = LINE_SIZE - 1
   \<and> (\<exists>s'. ser_readline default_config (fresh [Data 0 (replicate 1024 (CHR ''a''))])
             = (Inl (Fatal Line_too_long), s')
          \<and> collect_response default_config \<lparr>tv_sec = 0, tv_usec = 0\<rparr>
               (fresh [Data 0 (replicate 1024 (CHR ''a''))]) = (Inl (Fatal Line_too_long), s')
          \<and> stdout s' = [])
   \<and> (\<exists>s'. ser_readline default_config (fresh [Data 0 (''ok'' @ [LF])])
             = (Inr (Some (''ok'' @ [LF])), s'))
   \<and> reader_ok (fresh [Data 0 (''OK'' @ [LF]), Data 0 (replicate 1024 (CHR ''a''))])
   \<and> stream default_config (fresh [Data 0 (''OK'' @ [LF]), Data 0 (replicate 1024 (CHR ''a''))])
       = concat [''OK'' @ [LF]] @ replicate 1024 (CHR ''a'')
   \<and> plain_line (regex_prompt default_config) (''OK'' @ [LF])
   \<and> overlong (regex_prompt default_config) (replicate 1024 (CHR ''a''))
   \<and> in_time_for default_config \<lparr>tv_sec = 0, tv_usec = 0\<rparr>
        (fresh [Data 0 (''OK'' @ [LF]), Data 0 (replicate 1024 (CHR ''a''))]) 1
   \<and> (\<exists>d s'. collect_response default_config \<lparr>tv_sec = 0, tv_usec = 0\<rparr>
                (fresh [Data 0 (''OK'' @ [LF]), Data 0 (replicate 1024 (CHR ''a''))])
              = (Inl (Fatal d), s'))
   \<and> (\<exists>s'. collect_response default_config \<lparr>tv_sec = 0, tv_usec = 0\<rparr>
             (fresh [Data 0 (''OK'' @ [LF]), Data 0 (replicate 1024 (CHR ''a''))])
            = (Inl (Fatal Line_too_long), s')
          \<and> stdout s' = [Printed (''OK'' @ [LF])])
   \<and> reader_ok (fresh [Data 0 (''reset'' @ [LF]), Data 0 (''OK'' @ [LF]),
                       Data 0 (replicate 1024 (CHR ''a''))])
   \<and> stream default_config (fresh [Data 0 (''reset'' @ [LF]), Data 0 (''OK'' @ [LF]),
                                 Data 0 (replicate 1024 (CHR ''a''))])
       = (''reset'' @ [LF]) @ concat [''OK'' @ [LF]] @ replicate 1024 (CHR ''a'')
   \<and> plain_line (regex_prompt default_config) (''reset'' @ [LF])
   \<and> strstr (strip_cr (''reset'' @ [LF])) (joined [''reset''])
   \<and> (\<exists>s'. main default_config [''reset''] \<lparr>tv_sec = 0, tv_usec = 0\<rparr>
             (fresh [Data 0 (''reset'' @ [LF]), Data 0 (''OK'' @ [LF]),
                     Data 0 (replicate 1024 (CHR ''a''))])
            = Some (Inl (Fatal Line_too_long), s')
          \<and> stdout s' = [Printed (''OK'' @ [LF])])"
proof -
  let ?S = "replicate 1024 (CHR ''a'')"
  let ?A = "fresh [Data 0 ?S]"
  let ?B = "fresh [Data 0 (''ok'' @ [LF])]"
  let ?R = "fresh [Data 0 (''OK'' @ [LF]), Data 0 ?S]"
  let ?M = "fresh [Data 0 (''reset'' @ [LF]), Data 0 (''OK'' @ [LF]), Data 0 ?S]"
  let ?z = "\<lparr>tv_sec = 0, tv_usec = 0\<rparr>"
  have ok: "reader_ok ?A" "reader_ok ?B" "reader_ok ?R" "reader_ok ?M"
    by (simp_all add: reader_ok_def fresh_def)
  have st: "stream default_config ?A = ?S"
    by (simp add: stream_def fresh_def default_config_def DEFAULT_TIMEOUT_MS_def)
  have stB: "stream default_config ?B = ''ok'' @ [LF]"
    by (simp add: stream_def fresh_def default_config_def DEFAULT_TIMEOUT_MS_def)
  have stR: "stream default_config ?R = concat [''OK'' @ [LF]] @ ?S"
    by (simp add: stream_def fresh_def default_config_def DEFAULT_TIMEOUT_MS_def)
  have stM: "stream default_config ?M = (''reset'' @ [LF]) @ concat [''OK'' @ [LF]] @ ?S"
    by (simp add: stream_def fresh_def default_config_def DEFAULT_TIMEOUT_MS_def)
  have h1: "1023 < length ?S" "?S ! 1023 \<noteq> CR"
    by (simp_all add: CR_def)
  have h2: "length (strip_cr (take 1023 ?S)) = LINE_SIZE - 1"
    by (simp add: strip_cr_def CR_def LINE_SIZE_def)
  have h3: "LF \<notin> set (take 1023 ?S)"
    by (simp add: LF_def)
  have h4: "\<forall>j<1023. \<not> hit (regex_prompt default_config) [] ?S j"
  proof (intro allI impI)
    fix j :: nat assume "j < 1023"
    then have "cstr (strip_cr (take (Suc j) ?S)) = replicate (Suc j) (CHR ''a'')"
      by (simp add: strip_cr_def cstr_def CR_def NUL_def min_def)
    moreover have "\<not> default_prompt (replicate (Suc j) (CHR ''a''))"
    proof
      assume "default_prompt (replicate (Suc j) (CHR ''a''))"
      from default_prompt_last [OF this]
      have "last (replicate (Suc j) (CHR ''a'')) = SPC" by blast
      moreover have "last (replicate (Suc j) (CHR ''a'')) = CHR ''a''"
        by (rule last_replicate) simp
      ultimately have "SPC = CHR ''a''" by (simp del: replicate.simps)
      then show False by (simp add: SPC_def)
    qed
    ultimately show "\<not> hit (regex_prompt default_config) [] ?S j"
      by (simp add: hit_def default_config_def)
  qed
  have dbg: "opt_debug default_config = 0" and out: "stdout ?A = []" "stdout ?R = []"
    "stdout ?M = []"
    by (simp_all add: default_config_def fresh_def)
  have 1: "\<exists>s'. ser_readline default_config ?A = (Inl (Fatal Line_too_long), s')
          \<and> collect_response default_config ?z ?A = (Inl (Fatal Line_too_long), s')
          \<and> stdout s' = []"
    using overlong_line_is_fatal [OF ok(1), where k = 1023 and cfg = default_config and tv = ?z,
            THEN conjunct1]
      h1 h2 h3 h4 dbg out(1)
    unfolding st by auto
  have h5: "\<forall>j<Suc (Suc (Suc 0)). \<not> hit (regex_prompt default_config) [] (''ok'' @ [LF]) j"
    by (simp add: hit_def strip_cr_def cstr_def world_defs All_less_Suc)
  have 2: "\<exists>s'. ser_readline default_config ?B = (Inr (Some (''ok'' @ [LF])), s')"
    using overlong_line_is_fatal [OF ok(2), where cfg = default_config and i = "Suc (Suc 0)",
            THEN conjunct2, THEN conjunct1]
      h5
    unfolding stB by (simp add: strip_cr_def world_defs)
  have ov: "overlong (regex_prompt default_config) ?S"
    unfolding overlong_def using h1 h2 h3 h4 by (intro exI [of _ 1023]) simp
  have plO: "plain_line (regex_prompt default_config) (''OK'' @ [LF])"
    by (simp add: plain_line_def hit_def strip_cr_def cstr_def world_defs All_less_Suc)
  have plR: "plain_line (regex_prompt default_config) (''reset'' @ [LF])"
    by (simp add: plain_line_def hit_def strip_cr_def cstr_def world_defs All_less_Suc)
  have pls: "\<forall>l\<in>set [''OK'' @ [LF]]. plain_line (regex_prompt default_config) l"
    using plO by simp
  have it: "in_time_for default_config ?z ?R 1"
    by (simp add: in_time_for_def later_def fresh_def)
  have sh: "map shown [''OK'' @ [LF]] = [''OK'' @ [LF]]"
    "map (\<lambda>l. Printed (shown l)) [''OK'' @ [LF]] = [Printed (''OK'' @ [LF])]"
    by (simp_all add: shown_def strip_cr_def cstr_def world_defs)
  note c3 = overlong_line_is_fatal [OF ok(3), where cfg = default_config
              and ls = "[''OK'' @ [LF]]" and X = ?S and tv = ?z,
              THEN conjunct2, THEN conjunct2, THEN conjunct1, rule_format,
              OF conjI [OF stR conjI [OF pls ov]]]
  have 3: "\<exists>d s'. collect_response default_config ?z ?R = (Inl (Fatal d), s')"
    using c3 [THEN conjunct1] by blast
  have 4: "\<exists>s'. collect_response default_config ?z ?R = (Inl (Fatal Line_too_long), s')
          \<and> stdout s' = [Printed (''OK'' @ [LF])]"
    using c3 [THEN conjunct2] it dbg out(2) sh by auto
  have echo: "strstr (strip_cr (''reset'' @ [LF])) (joined [''reset''])"
    by (simp add: strstr_def cstr_def strip_cr_def joined_def world_defs)
  have env: "opt_dev default_config \<noteq> None" "[''reset''] \<noteq> []"
    "malloc_ok ?M" "\<forall>len. int len \<le> write_result ?M len" "terminal_ok ?M"
    "opens ?M (tries ?M) = Open_ok 3 Lock_ok" "opt_force default_config \<or> Lock_ok = Lock_ok"
    by (simp_all add: default_config_def fresh_def terminal_ok_def)
  have d: "deadline_after 2000 ?z = \<lparr>tv_sec = 2, tv_usec = 0\<rparr>"
    by (simp add: deadline_after_def int32_def div_quot_def div_rem_def)
  have time: "opt_timeout default_config \<le> 0
         \<or> (\<exists>t0 t1 t2. clock ?M (ticks ?M) = Some t0 \<and> clock ?M (ticks ?M + 1) = Some t1
               \<and> clock ?M (ticks ?M + 2) = Some t2
               \<and> (\<forall>i<length [''OK'' @ [LF]]. \<exists>now. clock ?M (ticks ?M + 3 + i) = Some now
                      \<and> \<not> later now (deadline_after (opt_timeout default_config) t2)))"
    by (simp add: later_def d world_defs)
  have 5: "\<exists>s'. main default_config [''reset''] ?z ?M = Some (Inl (Fatal Line_too_long), s')
          \<and> stdout s' = [Printed (''OK'' @ [LF])]"
    using overlong_line_is_fatal [OF ok(4), where cfg = default_config and words = "[''reset'']"
            and e = "''reset'' @ [LF]" and ls = "[''OK'' @ [LF]]" and X = ?S
            and fd = 3 and lk = Lock_ok and ?tv0.0 = ?z,
            THEN conjunct2, THEN conjunct2, THEN conjunct2]
      env dbg stM plR echo pls ov time out(3) sh
    by auto
  show ?thesis
    using ok h1 h2 1 2 stR plO ov it 3 4 stM plR echo 5 unfolding st by blast
qed



text \<open>
  C6. For a positive budget \<^verbatim>\<open>timeout_init\<close> should return the reading of the clock plus the
  budget, the microseconds carried into the seconds, and \<^verbatim>\<open>timed_out\<close> should report a
  reading strictly later than the deadline. The second holds (\<open>timed_out_disabled\<close>,
  \<open>timed_out_enabled\<close>), and the first holds while the sum of microseconds fits an \<^verbatim>\<open>int\<close>
  (\<open>deadline_after_exact\<close>). Beyond that it does not: with a budget of 2147483 ms and a
  reading whose microsecond field is 999999, the sum 2148482999 no longer fits the \<^verbatim>\<open>int\<close>
  parameter of \<^verbatim>\<open>div\<close>, \<^verbatim>\<open>timeout_init\<close> returns a deadline 2146 seconds before the
  reading, with a negative microsecond field, and \<^verbatim>\<open>timed_out\<close> reports it as expired at
  the very reading it was computed from.
\<close>

theorem timeout_init_wraps_large_budget:
  "fst (timeout_init (default_config\<lparr>opt_timeout := 2147483\<rparr>) \<lparr>tv_sec = 0, tv_usec = 0\<rparr>
         ((fresh [])\<lparr>clock := (\<lambda>i. Some \<lparr>tv_sec = 1700000000, tv_usec = 999999\<rparr>)\<rparr>))
     = Inr \<lparr>tv_sec = 1699997854, tv_usec = - 484297\<rparr>
   \<and> fst (timed_out (default_config\<lparr>opt_timeout := 2147483\<rparr>)
         \<lparr>tv_sec = 1699997854, tv_usec = - 484297\<rparr>
         ((fresh [])\<lparr>clock := (\<lambda>i. Some \<lparr>tv_sec = 1700000000, tv_usec = 999999\<rparr>)\<rparr>))
     = Inr True"
  by (simp add: timeout_init_def timed_out_def later_def get_time_def deadline_after_def
        default_config_def fresh_def int32_def div_quot_def div_rem_def Let_def)

text \<open>
  C7. A line returned by \<^verbatim>\<open>ser_readline\<close> is not empty, ends with the newline and holds no
  other newline; the prompt test was applied, and failed, after each byte stored, the final
  newline included; and when the first match of the pattern is reached on storing a
  newline, the call returns \<^verbatim>\<open>NULL\<close> (prompt reached) instead of the line.
\<close>

theorem completed_line_ends_with_newline:
  assumes "reader_ok s"
  shows "(ser_readline cfg s = (Inr (Some l), s1) \<longrightarrow>
            l \<noteq> [] \<and> last l = LF \<and> LF \<notin> set (butlast l))
       \<and> (ser_readline cfg s = (Inr (Some l), s1) \<and> 0 < m \<and> m \<le> length l \<longrightarrow>
            \<not> regex_prompt cfg (cstr (take m l)))
       \<and> (first_match cfg (stream cfg s) k \<and> within_line (stream cfg s) k
            \<and> stream cfg s ! k = LF \<longrightarrow>
            (\<exists>s'. ser_readline cfg s = (Inr None, s')))"
proof -
  have 1: "ser_readline cfg s = (Inr (Some l), s1) \<longrightarrow>
            l \<noteq> [] \<and> last l = LF \<and> LF \<notin> set (butlast l)"
    using ser_readline_line_shape [OF assms] by blast
  have 2: "ser_readline cfg s = (Inr (Some l), s1) \<and> 0 < m \<and> m \<le> length l \<longrightarrow>
            \<not> regex_prompt cfg (cstr (take m l))"
    using ser_readline_line_shape [OF assms] by blast
  have 3: "first_match cfg (stream cfg s) k \<and> within_line (stream cfg s) k
            \<and> stream cfg s ! k = LF \<longrightarrow>
            (\<exists>s'. ser_readline cfg s = (Inr None, s'))"
    using ser_readline_promptI [OF assms, of cfg k] by blast
  show ?thesis using 1 2 3 by blast
qed

theorem completed_line_ends_with_newline_witness:
  "reader_ok (fresh [Data 0 (''ok'' @ [LF])])
   \<and> fst (ser_readline default_config (fresh [Data 0 (''ok'' @ [LF])])) = Inr (Some (''ok'' @ [LF]))
   \<and> last (''ok'' @ [LF]) = LF
   \<and> \<not> regex_prompt default_config (cstr (take 3 (''ok'' @ [LF])))
   \<and> first_match (default_config\<lparr>regex_prompt := (\<lambda>str. str = ''ok'' @ [LF])\<rparr>)
         (stream (default_config\<lparr>regex_prompt := (\<lambda>str. str = ''ok'' @ [LF])\<rparr>)
            (fresh [Data 0 (''ok'' @ [LF])])) 2
   \<and> stream (default_config\<lparr>regex_prompt := (\<lambda>str. str = ''ok'' @ [LF])\<rparr>)
            (fresh [Data 0 (''ok'' @ [LF])]) ! 2 = LF
   \<and> (\<exists>s'. ser_readline (default_config\<lparr>regex_prompt := (\<lambda>str. str = ''ok'' @ [LF])\<rparr>)
            (fresh [Data 0 (''ok'' @ [LF])]) = (Inr None, s'))"
proof -
  let ?B = "fresh [Data 0 (''ok'' @ [LF])]"
  let ?cfg = "default_config\<lparr>regex_prompt := (\<lambda>str. str = ''ok'' @ [LF])\<rparr>"
  have ok: "reader_ok ?B"
    by (simp add: reader_ok_def fresh_def)
  have b: "fst (ser_readline default_config ?B) = Inr (Some (''ok'' @ [LF]))"
    by (simp add: run_defs world_defs)
  then obtain t where bt: "ser_readline default_config ?B = (Inr (Some (''ok'' @ [LF])), t)"
    by (cases "ser_readline default_config ?B") simp
  have st: "stream ?cfg ?B = ''ok'' @ [LF]"
    by (simp add: stream_def fresh_def default_config_def DEFAULT_TIMEOUT_MS_def)
  have fm: "first_match ?cfg (''ok'' @ [LF]) 2"
    by (simp add: first_match_def hit_def strip_cr_def cstr_def world_defs numeral_2_eq_2
          All_less_Suc)
  have wl: "within_line (''ok'' @ [LF]) 2"
    by (simp add: within_line_def strip_cr_def world_defs numeral_2_eq_2 numeral_3_eq_3)
  have nl: "(''ok'' @ [LF]) ! 2 = LF"
    by (simp add: numeral_2_eq_2)
  have 1: "last (''ok'' @ [LF]) = LF"
    using completed_line_ends_with_newline [OF ok, of default_config "''ok'' @ [LF]" t,
            THEN conjunct1] bt
    by blast
  have 2: "\<not> regex_prompt default_config (cstr (take 3 (''ok'' @ [LF])))"
    using completed_line_ends_with_newline [OF ok, of default_config "''ok'' @ [LF]" t 3,
            THEN conjunct2, THEN conjunct1] bt
    by simp
  have 3: "\<exists>s'. ser_readline ?cfg ?B = (Inr None, s')"
    using completed_line_ends_with_newline [OF ok, of ?cfg _ _ _ 2,
            THEN conjunct2, THEN conjunct2] fm wl nl
    unfolding st by blast
  show ?thesis using ok b 1 2 3 fm nl unfolding st by blast
qed

text \<open>
  C8. Carriage returns are dropped before storage: a returned line holds none, and removing
  the carriage returns from the incoming stream changes neither the line returned, nor
  whether and when the prompt is reached, nor whether the line is too long.
\<close>

theorem carriage_returns_discarded:
  assumes "reader_ok s" "reader_ok t" "stream cfg t = strip_cr (stream cfg s)"
  shows "(ser_readline cfg s = (Inr (Some l), s') \<longrightarrow> CR \<notin> set l)
       \<and> (fst (ser_readline cfg s) = Inr r \<longleftrightarrow> fst (ser_readline cfg t) = Inr r)
       \<and> (fst (ser_readline cfg s) = Inl (Fatal Line_too_long)
            \<longleftrightarrow> fst (ser_readline cfg t) = Inl (Fatal Line_too_long))"
proof -
  have eq: "decision (assemble (regex_prompt cfg) [] (stream cfg t))
          = decision (assemble (regex_prompt cfg) [] (stream cfg s))"
    using assms(3) by (simp add: assemble_strip_cr)
  have ds: "decision (assemble (regex_prompt cfg) [] (stream cfg s)) =
           (if (\<exists>r. fst (ser_readline cfg s) = Inr r)
                 \<or> fst (ser_readline cfg s) = Inl (Fatal Line_too_long)
            then Some (fst (ser_readline cfg s)) else None)"
    by (rule ser_readline_decision [OF assms(1)])
  have dt: "decision (assemble (regex_prompt cfg) [] (stream cfg t)) =
           (if (\<exists>r. fst (ser_readline cfg t) = Inr r)
                 \<or> fst (ser_readline cfg t) = Inl (Fatal Line_too_long)
            then Some (fst (ser_readline cfg t)) else None)"
    by (rule ser_readline_decision [OF assms(2)])
  have 1: "ser_readline cfg s = (Inr (Some l), s') \<longrightarrow> CR \<notin> set l"
    using ser_readline_line_shape [OF assms(1)] by blast
  have 2: "fst (ser_readline cfg s) = Inr r \<longleftrightarrow> fst (ser_readline cfg t) = Inr r"
    using eq ds dt by (auto split: if_splits)
  have 3: "fst (ser_readline cfg s) = Inl (Fatal Line_too_long)
            \<longleftrightarrow> fst (ser_readline cfg t) = Inl (Fatal Line_too_long)"
    using eq ds dt by (auto split: if_splits)
  show ?thesis using 1 2 3 by blast
qed

theorem carriage_returns_discarded_witness:
  "reader_ok (fresh [Data 0 (CHR ''o'' # CR # CHR ''k'' # CR # [LF])])
   \<and> reader_ok (fresh [Data 0 (''ok'' @ [LF])])
   \<and> stream default_config (fresh [Data 0 (''ok'' @ [LF])])
       = strip_cr (stream default_config (fresh [Data 0 (CHR ''o'' # CR # CHR ''k'' # CR # [LF])]))
   \<and> fst (ser_readline default_config (fresh [Data 0 (CHR ''o'' # CR # CHR ''k'' # CR # [LF])]))
       = Inr (Some (''ok'' @ [LF]))
   \<and> fst (ser_readline default_config (fresh [Data 0 (''ok'' @ [LF])])) = Inr (Some (''ok'' @ [LF]))
   \<and> CR \<notin> set (''ok'' @ [LF])
   \<and> fst (ser_readline default_config (fresh [Data 0 (''ok'' @ [LF])]))
       \<noteq> Inl (Fatal Line_too_long)"
proof -
  let ?A = "fresh [Data 0 (CHR ''o'' # CR # CHR ''k'' # CR # [LF])]"
  let ?B = "fresh [Data 0 (''ok'' @ [LF])]"
  have ok: "reader_ok ?A" "reader_ok ?B"
    by (simp_all add: reader_ok_def fresh_def)
  have st: "stream default_config ?B = strip_cr (stream default_config ?A)"
    by (simp add: stream_def strip_cr_def world_defs)
  have a: "fst (ser_readline default_config ?A) = Inr (Some (''ok'' @ [LF]))"
    by (simp add: run_defs world_defs)
  then obtain s' where as: "ser_readline default_config ?A = (Inr (Some (''ok'' @ [LF])), s')"
    by (cases "ser_readline default_config ?A") simp
  note inst = carriage_returns_discarded [OF ok st, of "''ok'' @ [LF]" s' "Some (''ok'' @ [LF])"]
  have 1: "CR \<notin> set (''ok'' @ [LF])"
    using inst [THEN conjunct1] as by blast
  have 2: "fst (ser_readline default_config ?B) = Inr (Some (''ok'' @ [LF]))"
    using inst [THEN conjunct2, THEN conjunct1] a by blast
  have 3: "fst (ser_readline default_config ?B) \<noteq> Inl (Fatal Line_too_long)"
    using inst [THEN conjunct2, THEN conjunct2] a by simp
  show ?thesis using ok st a 1 2 3 by blast
qed

text \<open>
  C9. In the echo loop the substring test comes before the deadline check: when the line
  read contains the command, the loop ends with success in the state the line was read in,
  the clock not even consulted, whatever the deadline; and the loop ends with
  \<open>Command_echo_not_found\<close> only when \<^verbatim>\<open>ser_readline\<close> has returned \<^verbatim>\<open>NULL\<close>, or has
  returned a line that fails the test and \<^verbatim>\<open>timed_out\<close> then reports the deadline expired.
\<close>

theorem echo_test_precedes_deadline:
  "(ser_readline cfg s = (Inr (Some l), s1) \<and> strstr l cmd \<longrightarrow>
      wait_echo cfg cmd tv s = (Inr (), s1))
   \<and> (wait_echo cfg cmd tv s = (Inl (Fatal Command_echo_not_found), s') \<longrightarrow>
        (\<exists>s0. ser_readline cfg s0 = (Inr None, s')
           \<or> (\<exists>l' s2. ser_readline cfg s0 = (Inr (Some l'), s2) \<and> \<not> strstr l' cmd
                 \<and> timed_out cfg tv s2 = (Inr True, s'))))"
  using wait_echo_found [of cfg s l s1 cmd tv] wait_echo_not_found [of cfg cmd tv s s']
  by blast

theorem echo_test_precedes_deadline_witness:
  "fst (ser_readline default_config
         ((fresh [Data 0 (''reset'' @ [LF])])\<lparr>clock := (\<lambda>i. Some \<lparr>tv_sec = 1000, tv_usec = 0\<rparr>)\<rparr>))
     = Inr (Some (''reset'' @ [LF]))
   \<and> strstr (''reset'' @ [LF]) (joined [''reset''])
   \<and> fst (timed_out default_config \<lparr>tv_sec = 0, tv_usec = 0\<rparr>
         (snd (ser_readline default_config
           ((fresh [Data 0 (''reset'' @ [LF])])\<lparr>clock := (\<lambda>i. Some \<lparr>tv_sec = 1000, tv_usec = 0\<rparr>)\<rparr>))))
     = Inr True
   \<and> fst (wait_echo default_config (joined [''reset'']) \<lparr>tv_sec = 0, tv_usec = 0\<rparr>
         ((fresh [Data 0 (''reset'' @ [LF])])\<lparr>clock := (\<lambda>i. Some \<lparr>tv_sec = 1000, tv_usec = 0\<rparr>)\<rparr>))
     = Inr ()
   \<and> fst (wait_echo default_config (joined [''reset'']) \<lparr>tv_sec = 0, tv_usec = 0\<rparr>
         (fresh [Data 0 ''> ''])) = Inl (Fatal Command_echo_not_found)
   \<and> (\<exists>s0. fst (ser_readline default_config s0) = Inr None
         \<or> (\<exists>l. fst (ser_readline default_config s0) = Inr (Some l)
               \<and> \<not> strstr l (joined [''reset''])))"
proof -
  let ?A = "(fresh [Data 0 (''reset'' @ [LF])])\<lparr>clock := (\<lambda>i. Some \<lparr>tv_sec = 1000, tv_usec = 0\<rparr>)\<rparr>"
  let ?B = "fresh [Data 0 ''> '']"
  let ?tv = "\<lparr>tv_sec = 0, tv_usec = 0\<rparr>"
  have a: "fst (ser_readline default_config ?A) = Inr (Some (''reset'' @ [LF]))"
    by (simp add: run_defs world_defs)
  then have a': "ser_readline default_config ?A
      = (Inr (Some (''reset'' @ [LF])), snd (ser_readline default_config ?A))"
    by (metis prod.collapse)
  have st: "strstr (''reset'' @ [LF]) (joined [''reset''])"
    by (simp add: strstr_def cstr_def joined_def world_defs)
  have ex: "fst (timed_out default_config ?tv (snd (ser_readline default_config ?A))) = Inr True"
    by (simp add: run_defs world_defs)
  have 1: "fst (wait_echo default_config (joined [''reset'']) ?tv ?A) = Inr ()"
    using echo_test_precedes_deadline [of default_config ?A "''reset'' @ [LF]"
            "snd (ser_readline default_config ?A)" "joined [''reset'']" ?tv, THEN conjunct1]
      a' st
    by simp
  have b: "fst (wait_echo default_config (joined [''reset'']) ?tv ?B)
      = Inl (Fatal Command_echo_not_found)"
    by (simp add: run_defs world_defs)
  then have b': "wait_echo default_config (joined [''reset'']) ?tv ?B
      = (Inl (Fatal Command_echo_not_found),
         snd (wait_echo default_config (joined [''reset'']) ?tv ?B))"
    by (metis prod.collapse)
  have 2: "\<exists>s0. fst (ser_readline default_config s0) = Inr None
         \<or> (\<exists>l. fst (ser_readline default_config s0) = Inr (Some l)
               \<and> \<not> strstr l (joined [''reset'']))"
    using echo_test_precedes_deadline [of default_config ?B _ _ "joined [''reset'']" ?tv
            "snd (wait_echo default_config (joined [''reset'']) ?tv ?B)", THEN conjunct2]
      b'
    by (metis fst_conv)
  show ?thesis using a st ex 1 b 2 by blast
qed

text \<open>
  C10, as amended. For a line returned by \<^verbatim>\<open>ser_readline\<close>, the echo test
  \<^verbatim>\<open>strstr(line, cmd)\<close> succeeds if and only if the line holds no NUL byte and ends with
  the whole command string, newline included.
\<close>

theorem echo_test_iff_suffix_without_nul:
  assumes "reader_ok s" "ser_readline cfg s = (Inr (Some l), s')"
  shows "strstr l (joined words) \<longleftrightarrow> NUL \<notin> set l \<and> suffix (joined words) l"
  using ser_readline_line_shape [OF assms] echo_test_suffix by blast

theorem echo_test_iff_suffix_without_nul_witness:
  "reader_ok (fresh [Data 0 (''reset'' @ [LF])])
   \<and> fst (ser_readline default_config (fresh [Data 0 (''reset'' @ [LF])]))
       = Inr (Some (''reset'' @ [LF]))
   \<and> strstr (''reset'' @ [LF]) (joined [''reset''])
   \<and> NUL \<notin> set (''reset'' @ [LF]) \<and> suffix (joined [''reset'']) (''reset'' @ [LF])"
proof -
  let ?B = "fresh [Data 0 (''reset'' @ [LF])]"
  have ok: "reader_ok ?B"
    by (simp add: reader_ok_def fresh_def)
  have b: "fst (ser_readline default_config ?B) = Inr (Some (''reset'' @ [LF]))"
    by (simp add: run_defs world_defs)
  then obtain t where bt: "ser_readline default_config ?B = (Inr (Some (''reset'' @ [LF])), t)"
    by (cases "ser_readline default_config ?B") simp
  have st: "strstr (''reset'' @ [LF]) (joined [''reset''])"
    by (simp add: strstr_def cstr_def joined_def world_defs)
  have "NUL \<notin> set (''reset'' @ [LF]) \<and> suffix (joined [''reset'']) (''reset'' @ [LF])"
    using echo_test_iff_suffix_without_nul [OF ok bt, of "[''reset'']"] st by blast
  with ok b st show ?thesis by blast
qed

text \<open>
  Without the condition on NUL bytes the equivalence does not hold: when the device sends
  a NUL byte at the head of the line of the echo, the line returned ends with the command
  string, but \<^verbatim>\<open>strstr\<close> sees an empty C string, the test fails, and the run ends with
  \<open>Command_echo_not_found\<close>.
\<close>

theorem echo_test_suffix_counterexample:
  "fst (ser_readline default_config (fresh [Data 0 (NUL # ''reset'' @ [LF])]))
       = Inr (Some (NUL # ''reset'' @ [LF]))
   \<and> suffix (joined [''reset'']) (NUL # ''reset'' @ [LF])
   \<and> \<not> strstr (NUL # ''reset'' @ [LF]) (joined [''reset''])
   \<and> map_option fst
        (main default_config [''reset''] \<lparr>tv_sec = 0, tv_usec = 0\<rparr>
           (fresh [Data 0 (NUL # ''reset'' @ [LF]), Data 0 (''OK'' @ [LF]), Data 0 ''> '']))
     = Some (Inl (Fatal Command_echo_not_found))"
  by (simp add: run_defs world_defs suffix_to_prefix)

end
